theory Spec2Isabelle
  imports Main "HOL-Library.Multiset"
begin

section \<open>JavaScript values\<close>

text \<open>
  The values the stage inspects: chunks, encodings, callbacks, errors and outputs.
  The code only ever tests them for truthiness (\<^verbatim>\<open>if (err)\<close>, \<^verbatim>\<open>if (data)\<close>,
  \<^verbatim>\<open>if (chunk)\<close>, \<^verbatim>\<open>if (callback)\<close>) and for \<^verbatim>\<open>typeof v === 'function'\<close>.
  Numbers are integers here; objects and functions are identified by a number.
\<close>

datatype jsval =
    JUndefined
  | JNull
  | JBool bool
  | JNum int
  | JStr string
  | JObj nat
  | JFun nat

fun truthy :: "jsval \<Rightarrow> bool" where
  "truthy JUndefined = False"
| "truthy JNull = False"
| "truthy (JBool b) = b"
| "truthy (JNum n) = (n \<noteq> 0)"
| "truthy (JStr s) = (s \<noteq> [])"
| "truthy (JObj _) = True"
| "truthy (JFun _) = True"

fun is_function :: "jsval \<Rightarrow> bool" where
  "is_function (JFun _) = True"
| "is_function _ = False"

text \<open>A chunk travels with its encoding: the pair \<^verbatim>\<open>(chunk, enc)\<close>.\<close>

type_synonym item = "jsval \<times> jsval"

section \<open>The constructors' arguments\<close>

text \<open>
  \<^verbatim>\<open>work(chunk, enc, callback)\<close> either fires its callback before it returns, with
  \<^verbatim>\<open>(err, data)\<close>, or returns with the callback still to come (\<open>None\<close>).
  \<^verbatim>\<open>flush(callback)\<close> likewise: \<open>Some err\<close> when it calls back at once.
\<close>

type_synonym work_fn = "item \<Rightarrow> (jsval \<times> jsval) option"
type_synonym flush_fn = "jsval option"

text \<open>
  The options object: \<^verbatim>\<open>options.concurrency\<close> is a number (documented so) or missing
  (\<open>None\<close>); everything else is handed to the host stream untouched.
\<close>

record options =
  opt_concurrency :: "int option"
  opt_stream :: "nat"

text \<open>What may stand in the \<^verbatim>\<open>flush\<close> and \<^verbatim>\<open>options\<close> positions of a constructor call.\<close>

datatype ctor_arg =
    ArgUndefined
  | ArgNull
  | ArgObject options
  | ArgFunction flush_fn

fun typeof_object :: "ctor_arg \<Rightarrow> bool" where
  "typeof_object ArgNull = True"
| "typeof_object (ArgObject _) = True"
| "typeof_object _ = False"

fun arg_truthy :: "ctor_arg \<Rightarrow> bool" where
  "arg_truthy ArgUndefined = False"
| "arg_truthy ArgNull = False"
| "arg_truthy (ArgObject _) = True"
| "arg_truthy (ArgFunction _) = True"

text \<open>\<^verbatim>\<open>function(callback) { callback(); }\<close>: calls back at once, with no error.\<close>

definition default_flush :: flush_fn where
  "default_flush = Some JUndefined"

text \<open>\<^verbatim>\<open>options.concurrency\<close>: a function or an empty object has no such property.\<close>

fun get_concurrency :: "ctor_arg \<Rightarrow> int option" where
  "get_concurrency (ArgObject opts) = opt_concurrency opts"
| "get_concurrency _ = None"

text \<open>\<^verbatim>\<open>options.concurrency || 1\<close>: a missing property and the number 0 are falsy.\<close>

fun concurrency_or_1 :: "int option \<Rightarrow> int" where
  "concurrency_or_1 None = 1"
| "concurrency_or_1 (Some n) = (if n = 0 then 1 else n)"

datatype variant = Sink | Transform

record config =
  variant :: variant
  work :: work_fn
  flush :: flush_fn
  concurrency :: int
  host_options :: ctor_arg

definition empty_options :: options where
  "empty_options = \<lparr>opt_concurrency = None, opt_stream = 0\<rparr>"

text \<open>
  \<^verbatim>\<open>module.exports.writable = function(work, flush, options)\<close>, lines 28-37.
  After line 33 \<^verbatim>\<open>flush\<close> is a function whenever the caller passed a function,
  an object, \<^verbatim>\<open>null\<close> or nothing; the last case of \<open>the_flush\<close> is never taken.
\<close>

fun the_flush :: "ctor_arg \<Rightarrow> flush_fn" where
  "the_flush (ArgFunction f) = f"
| "the_flush _ = default_flush"

definition writable :: "work_fn \<Rightarrow> ctor_arg \<Rightarrow> ctor_arg \<Rightarrow> config" where
  "writable wk flush_arg options_arg =
    (let (fl, opts) = (if typeof_object flush_arg then (ArgNull, flush_arg)
                       else (flush_arg, options_arg));
         fl = (if \<not> arg_truthy fl then ArgFunction default_flush else fl);
         opts = (if arg_truthy opts then opts else ArgObject empty_options)
     in \<lparr>variant = Sink, work = wk, flush = the_flush fl,
         concurrency = concurrency_or_1 (get_concurrency opts),
         host_options = opts\<rparr>)"

text \<open>
  \<^verbatim>\<open>module.exports.transform = function(work, options)\<close>, lines 142-146.
  The transform has no flush hook; the field is not read for this variant.
\<close>

definition transform :: "work_fn \<Rightarrow> ctor_arg \<Rightarrow> config" where
  "transform wk options_arg =
    (let opts = (if arg_truthy options_arg then options_arg else ArgObject empty_options)
     in \<lparr>variant = Transform, work = wk, flush = default_flush,
         concurrency = concurrency_or_1 (get_concurrency opts),
         host_options = opts\<rparr>)"

section \<open>The stage and its control stack\<close>

text \<open>
  JavaScript runs one call at a time. A frame is a call still to be made in the current
  turn; the stack holds them in the order they will run. A listener registered with
  \<^verbatim>\<open>once\<close> is a numbered frame waiting for its event.
\<close>

datatype evname = Free | Empty

datatype frame =
    Call_write item
  | Call_end jsval jsval jsval
  | Work_done item jsval jsval
  | Write_cb
  | Check_empty
  | Fire evname nat
  | Fail_if jsval
  | Flush_done jsval
  | Host_write item
  | Once_free_end jsval

text \<open>What the stage does that its surroundings can see, in the order it happens.\<close>

datatype event =
    EvWrite item
  | EvEndCall
  | EvDispatch item
  | EvDone item jsval jsval
  | EvError jsval
  | EvPush jsval
  | EvOnFinish jsval
  | EvFlush
  | EvFlushDone jsval
  | EvEnd
  | EvFinish

record stage =
  pending :: int
  errorEmitted :: bool
  listeners_free :: "(nat \<times> frame) list"
  listeners_empty :: "(nat \<times> frame) list"
  next_id :: nat
  host_writing :: bool
  host_buffer :: "item list"
  host_paused :: bool
  host_held :: "item option"
  host_ending :: bool
  host_finished :: bool
  inflight :: "item list"
  flushing :: nat
  stack :: "frame list"
  log :: "event list"

definition init :: stage where
  "init = \<lparr>pending = 0, errorEmitted = False, listeners_free = [], listeners_empty = [],
          next_id = 0, host_writing = False, host_buffer = [], host_paused = False,
          host_held = None, host_ending = False, host_finished = False, inflight = [],
          flushing = 0, stack = [], log = []\<rparr>"

definition push :: "frame list \<Rightarrow> stage \<Rightarrow> stage" where
  "push fs s = s\<lparr>stack := fs @ stack s\<rparr>"

definition record_ev :: "event \<Rightarrow> stage \<Rightarrow> stage" where
  "record_ev e s = s\<lparr>log := log s @ [e]\<rparr>"

subsection \<open>The event emitter\<close>

fun listeners :: "evname \<Rightarrow> stage \<Rightarrow> (nat \<times> frame) list" where
  "listeners Free s = listeners_free s"
| "listeners Empty s = listeners_empty s"

fun set_listeners :: "evname \<Rightarrow> (nat \<times> frame) list \<Rightarrow> stage \<Rightarrow> stage" where
  "set_listeners Free ls s = s\<lparr>listeners_free := ls\<rparr>"
| "set_listeners Empty ls s = s\<lparr>listeners_empty := ls\<rparr>"

text \<open>\<^verbatim>\<open>stage.once(ev, f)\<close>: a new listener at the end of the event's list.\<close>

definition once :: "evname \<Rightarrow> frame \<Rightarrow> stage \<Rightarrow> stage" where
  "once ev f s =
     (set_listeners ev (listeners ev s @ [(next_id s, f)]) s)\<lparr>next_id := Suc (next_id s)\<rparr>"

text \<open>
  \<^verbatim>\<open>stage.emit(ev)\<close> calls the listeners registered at that moment, in order:
  the frames to run for it.
\<close>

definition emit :: "evname \<Rightarrow> stage \<Rightarrow> frame list" where
  "emit ev s = map (\<lambda>l. Fire ev (fst l)) (listeners ev s)"

text \<open>
  A \<^verbatim>\<open>once\<close> listener removes itself when it is called, and is called at most once:
  one that has fired already (in an emit nested in this one) is skipped.
\<close>

definition fire :: "evname \<Rightarrow> nat \<Rightarrow> stage \<Rightarrow> stage" where
  "fire ev i s =
     (case find (\<lambda>l. fst l = i) (listeners ev s) of
        None \<Rightarrow> s
      | Some l \<Rightarrow> push [snd l] (set_listeners ev (remove1 l (listeners ev s)) s))"

subsection \<open>The host stream\<close>

text \<open>
  \<^verbatim>\<open>stream.Writable\<close> and \<^verbatim>\<open>stream.Transform\<close> belong to the platform, not to this
  code. The stage relies on this much of them. \<^verbatim>\<open>write\<close> takes a chunk on when no
  chunk is outstanding and buffers it otherwise; the callback of \<^verbatim>\<open>_write\<close>
  (\<^verbatim>\<open>_transform\<close>) ends the outstanding chunk and takes on the oldest buffered one.
  A Writable hands the chunk it takes on to \<^verbatim>\<open>_write\<close> at once. A Transform hands it
  to \<^verbatim>\<open>_transform\<close> only while its readable side asks for data: otherwise it keeps
  the chunk until the consumer reads. The original \<^verbatim>\<open>end\<close> starts the host's shutdown;
  the host reports \<^verbatim>\<open>finish\<close> once it has been ended and has no chunk left, outstanding
  or buffered.
\<close>

text \<open>
  The host takes a chunk on: it calls \<^verbatim>\<open>_write\<close> (\<^verbatim>\<open>_transform\<close>) with it, or keeps
  it while the readable side of a transform does not ask for data.
\<close>

definition host_call :: "item \<Rightarrow> stage \<Rightarrow> stage" where
  "host_call it s =
     (if host_paused s then s\<lparr>host_held := Some it\<rparr> else push [Call_write it] s)"

definition host_write :: "item \<Rightarrow> stage \<Rightarrow> stage" where
  "host_write it s =
     (let s1 = record_ev (EvWrite it) s
      in if host_writing s1 then s1\<lparr>host_buffer := host_buffer s1 @ [it]\<rparr>
         else host_call it (s1\<lparr>host_writing := True\<rparr>))"

definition host_onwrite :: "stage \<Rightarrow> stage" where
  "host_onwrite s =
     (case host_buffer s of
        [] \<Rightarrow> s\<lparr>host_writing := False\<rparr>
      | x # xs \<Rightarrow> host_call x (s\<lparr>host_buffer := xs, host_writing := True\<rparr>))"

definition host_end :: "stage \<Rightarrow> stage" where
  "host_end s = record_ev EvEnd (s\<lparr>host_ending := True\<rparr>)"

text \<open>The consumer reads: the readable side asks for data, and gets the chunk kept back.\<close>

definition host_read :: "stage \<Rightarrow> stage" where
  "host_read s =
     (case host_held s of
        None \<Rightarrow> s\<lparr>host_paused := False\<rparr>
      | Some it \<Rightarrow> push [Call_write it] (s\<lparr>host_paused := False, host_held := None\<rparr>))"

text \<open>The host reports \<^verbatim>\<open>finish\<close>, once.\<close>

definition host_can_finish :: "stage \<Rightarrow> bool" where
  "host_can_finish s \<longleftrightarrow>
     host_ending s \<and> \<not> host_finished s \<and> \<not> host_writing s \<and> host_buffer s = []"

definition host_finish :: "stage \<Rightarrow> stage" where
  "host_finish s = record_ev EvFinish (s\<lparr>host_finished := True\<rparr>)"

subsection \<open>Calling the user's functions\<close>

text \<open>
  \<^verbatim>\<open>work.call(stage, chunk, enc, function(err, data) {...})\<close>: the frames that run
  before the call returns, and the stage after it.
\<close>

definition call_work :: "config \<Rightarrow> item \<Rightarrow> stage \<Rightarrow> frame list \<times> stage" where
  "call_work cfg it s =
     (let s1 = record_ev (EvDispatch it) s
      in case work cfg it of
           None \<Rightarrow> ([], s1\<lparr>inflight := inflight s1 @ [it]\<rparr>)
         | Some (err, data) \<Rightarrow> ([Work_done it err data], s1))"

definition call_flush :: "config \<Rightarrow> stage \<Rightarrow> stage" where
  "call_flush cfg s =
     (let s1 = record_ev EvFlush s
      in case flush cfg of
           None \<Rightarrow> s1\<lparr>flushing := flushing s1 + 1\<rparr>
         | Some err \<Rightarrow> push [Flush_done err] s1)"

subsection \<open>The code of both stages\<close>

text \<open>\<^verbatim>\<open>function fail(err)\<close>, lines 46-51 and 149-154.\<close>

definition fail :: "jsval \<Rightarrow> stage \<Rightarrow> stage" where
  "fail err s =
     (if \<not> errorEmitted s then record_ev (EvError err) (s\<lparr>errorEmitted := True\<rparr>) else s)"

text \<open>\<^verbatim>\<open>writable._write\<close>, lines 53-69.\<close>

definition writable_write :: "config \<Rightarrow> item \<Rightarrow> stage \<Rightarrow> stage" where
  "writable_write cfg it s =
     (if pending s \<ge> concurrency cfg then once Free (Call_write it) s
      else
        let s1 = s\<lparr>pending := pending s + 1\<rparr>;
            (now, s2) = call_work cfg it s1
        in push (now @ [Write_cb, Check_empty]) s2)"

text \<open>The callback given to \<^verbatim>\<open>work\<close> by the sink, lines 61-65.\<close>

definition writable_work_done :: "item \<Rightarrow> jsval \<Rightarrow> jsval \<Rightarrow> stage \<Rightarrow> stage" where
  "writable_work_done it err data s =
     (let s1 = record_ev (EvDone it err data) (s\<lparr>pending := pending s - 1\<rparr>)
      in push (emit Free s1 @ [Fail_if err]) s1)"

text \<open>Line 68.\<close>

definition check_empty :: "stage \<Rightarrow> stage" where
  "check_empty s = (if host_buffer s = [] then push (emit Empty s) s else s)"

text \<open>Line 64: \<^verbatim>\<open>if (err) fail(err)\<close>.\<close>

definition fail_if :: "jsval \<Rightarrow> stage \<Rightarrow> stage" where
  "fail_if err s = (if truthy err then fail err s else s)"

text \<open>
  The argument shuffle of both \<^verbatim>\<open>end\<close> functions, lines 86-94 and 183-191:
  the chunk, the encoding and the callback afterwards.
\<close>

definition end_args :: "jsval \<Rightarrow> jsval \<Rightarrow> jsval \<Rightarrow> jsval \<times> jsval \<times> jsval" where
  "end_args chunk enc callback =
     (let (chunk, callback) = (if is_function chunk then (JNull, chunk) else (chunk, callback));
          (enc, callback) = (if is_function enc then (JNull, enc) else (enc, callback))
      in (chunk, enc, callback))"

text \<open>\<^verbatim>\<open>writable.end\<close>, lines 73-110.\<close>

definition writable_end :: "config \<Rightarrow> jsval \<Rightarrow> jsval \<Rightarrow> jsval \<Rightarrow> stage \<Rightarrow> stage" where
  "writable_end cfg chunk enc callback s =
     (if host_buffer s \<noteq> [] then once Empty (Call_end chunk enc callback) s
      else if pending s \<noteq> 0 then once Free (Call_end chunk enc callback) s
      else
        let (chunk, enc, callback) = end_args chunk enc callback
        in if truthy chunk then push [Host_write (chunk, enc), Once_free_end callback] s
           else if errorEmitted s then s
           else
             let s1 = (if truthy callback then record_ev (EvOnFinish callback) s else s)
             in call_flush cfg s1)"

text \<open>The callback given to \<^verbatim>\<open>flush\<close>, lines 106-109.\<close>

definition flush_done :: "jsval \<Rightarrow> stage \<Rightarrow> stage" where
  "flush_done err s =
     (let s1 = record_ev (EvFlushDone err) s
      in if truthy err then fail err s1 else host_end s1)"

text \<open>Lines 98-100 and 195-197: \<^verbatim>\<open>stage.once('free', function() { stage.end(callback); })\<close>.\<close>

definition once_free_end :: "jsval \<Rightarrow> stage \<Rightarrow> stage" where
  "once_free_end callback s = once Free (Call_end callback JUndefined JUndefined) s"

text \<open>\<^verbatim>\<open>transform._transform\<close>, lines 156-172.\<close>

definition transform_transform :: "config \<Rightarrow> item \<Rightarrow> stage \<Rightarrow> stage" where
  "transform_transform cfg it s =
     (if pending s \<ge> concurrency cfg then once Free (Call_write it) s
      else
        let s1 = s\<lparr>pending := pending s + 1\<rparr>;
            (now, s2) = call_work cfg it s1
        in push (now @ [Write_cb]) s2)"

text \<open>The callback given to \<^verbatim>\<open>work\<close> by the transform, lines 164-169.\<close>

definition transform_work_done :: "item \<Rightarrow> jsval \<Rightarrow> jsval \<Rightarrow> stage \<Rightarrow> stage" where
  "transform_work_done it err data s =
     (let s1 = record_ev (EvDone it err data) (s\<lparr>pending := pending s - 1\<rparr>);
          s2 = (if truthy err then fail err s1
                else if truthy data then record_ev (EvPush data) s1
                else s1)
      in push (emit Free s2) s2)"

text \<open>\<^verbatim>\<open>transform.end\<close>, lines 176-204.\<close>

definition transform_end :: "jsval \<Rightarrow> jsval \<Rightarrow> jsval \<Rightarrow> stage \<Rightarrow> stage" where
  "transform_end chunk enc callback s =
     (if pending s \<noteq> 0 then once Free (Call_end chunk enc callback) s
      else
        let (chunk, enc, callback) = end_args chunk enc callback
        in if truthy chunk then push [Host_write (chunk, enc), Once_free_end callback] s
           else
             let s1 = (if truthy callback then record_ev (EvOnFinish callback) s else s)
             in if errorEmitted s1 then s1 else host_end s1)"

subsection \<open>Running the stage\<close>

text \<open>One frame: the call on top of the stack, up to the calls it makes itself.\<close>

fun exec :: "config \<Rightarrow> frame \<Rightarrow> stage \<Rightarrow> stage" where
  "exec cfg (Call_write it) s =
     (case variant cfg of
        Sink \<Rightarrow> writable_write cfg it s
      | Transform \<Rightarrow> transform_transform cfg it s)"
| "exec cfg (Call_end chunk enc callback) s =
     (case variant cfg of
        Sink \<Rightarrow> writable_end cfg chunk enc callback s
      | Transform \<Rightarrow> transform_end chunk enc callback s)"
| "exec cfg (Work_done it err data) s =
     (case variant cfg of
        Sink \<Rightarrow> writable_work_done it err data s
      | Transform \<Rightarrow> transform_work_done it err data s)"
| "exec cfg Write_cb s = host_onwrite s"
| "exec cfg Check_empty s = check_empty s"
| "exec cfg (Fire ev i) s = fire ev i s"
| "exec cfg (Fail_if err) s = fail_if err s"
| "exec cfg (Flush_done err) s = flush_done err s"
| "exec cfg (Host_write it) s = host_write it s"
| "exec cfg (Once_free_end callback) s = once_free_end callback s"

text \<open>
  What can happen to a stage. The producer writes or ends, a piece of work or the flush
  hook calls back, the consumer of a transform reads, the host reports \<^verbatim>\<open>finish\<close>: each
  starts a turn, and only when the previous turn is over (the stack is empty). \<open>Tau\<close>
  runs the next call of the current turn. A piece of work calls back once: \<open>Complete k\<close>
  takes the \<open>k\<close>-th piece in flight and removes it. \<open>Pause\<close> starts no turn: it is the
  readable side of a transform ceasing to ask for data, which the outputs pushed in the
  middle of a turn can bring about, so it can happen at any moment. A sink has no
  readable side.
\<close>

datatype action =
    Write jsval jsval
  | End jsval jsval jsval
  | Complete nat jsval jsval
  | FlushComplete jsval
  | Pause
  | Read
  | Finish
  | Tau

fun step :: "config \<Rightarrow> action \<Rightarrow> stage \<Rightarrow> stage option" where
  "step cfg Tau s =
     (case stack s of
        [] \<Rightarrow> None
      | f # fs \<Rightarrow> Some (exec cfg f (s\<lparr>stack := fs\<rparr>)))"
| "step cfg (Write chunk enc) s =
     (if stack s = [] then Some (push [Host_write (chunk, enc)] s) else None)"
| "step cfg (End chunk enc callback) s =
     (if stack s = [] then Some (push [Call_end chunk enc callback] (record_ev EvEndCall s))
      else None)"
| "step cfg (Complete k err data) s =
     (if stack s = [] \<and> k < length (inflight s)
      then Some (push [Work_done (inflight s ! k) err data]
                  (s\<lparr>inflight := take k (inflight s) @ drop (Suc k) (inflight s)\<rparr>))
      else None)"
| "step cfg (FlushComplete err) s =
     (if stack s = [] \<and> 0 < flushing s
      then Some (push [Flush_done err] (s\<lparr>flushing := flushing s - 1\<rparr>))
      else None)"
| "step cfg Pause s =
     (if variant cfg = Transform then Some (s\<lparr>host_paused := True\<rparr>) else None)"
| "step cfg Read s =
     (if stack s = [] \<and> variant cfg = Transform then Some (host_read s) else None)"
| "step cfg Finish s =
     (if stack s = [] \<and> host_can_finish s then Some (host_finish s) else None)"

fun run :: "config \<Rightarrow> action list \<Rightarrow> stage \<Rightarrow> stage option" where
  "run cfg [] s = Some s"
| "run cfg (a # as) s = (case step cfg a s of None \<Rightarrow> None | Some s' \<Rightarrow> run cfg as s')"

section \<open>What a run shows\<close>

subsection \<open>Reading the log\<close>

fun write_of :: "event \<Rightarrow> item list" where
  "write_of (EvWrite it) = [it]"
| "write_of _ = []"

fun dispatch_of :: "event \<Rightarrow> item list" where
  "dispatch_of (EvDispatch it) = [it]"
| "dispatch_of _ = []"

fun done_of :: "event \<Rightarrow> (item \<times> jsval \<times> jsval) list" where
  "done_of (EvDone it err data) = [(it, err, data)]"
| "done_of _ = []"

fun error_of :: "event \<Rightarrow> jsval list" where
  "error_of (EvError err) = [err]"
| "error_of _ = []"

fun push_of :: "event \<Rightarrow> jsval list" where
  "push_of (EvPush data) = [data]"
| "push_of _ = []"

text \<open>A failure is a callback of \<^verbatim>\<open>work\<close> or of \<^verbatim>\<open>flush\<close> fired with a truthy error.\<close>

fun failure_of :: "event \<Rightarrow> jsval list" where
  "failure_of (EvDone it err data) = (if truthy err then [err] else [])"
| "failure_of (EvFlushDone err) = (if truthy err then [err] else [])"
| "failure_of _ = []"

text \<open>The output of a completion: its data when it is truthy and the error is not.\<close>

fun output_of :: "event \<Rightarrow> jsval list" where
  "output_of (EvDone it err data) = (if \<not> truthy err \<and> truthy data then [data] else [])"
| "output_of _ = []"

definition written :: "event list \<Rightarrow> item list" where
  "written evs = concat (map write_of evs)"

definition dispatched :: "event list \<Rightarrow> item list" where
  "dispatched evs = concat (map dispatch_of evs)"

definition completed :: "event list \<Rightarrow> (item \<times> jsval \<times> jsval) list" where
  "completed evs = concat (map done_of evs)"

definition errors :: "event list \<Rightarrow> jsval list" where
  "errors evs = concat (map error_of evs)"

definition failures :: "event list \<Rightarrow> jsval list" where
  "failures evs = concat (map failure_of evs)"

definition pushes :: "event list \<Rightarrow> jsval list" where
  "pushes evs = concat (map push_of evs)"

definition outputs :: "event list \<Rightarrow> jsval list" where
  "outputs evs = concat (map output_of evs)"

text \<open>
  Every completion with an output is followed at once by the push of that output, and
  nothing else is pushed. The first argument is the push that has to come next.
\<close>

fun emits_at_once :: "jsval option \<Rightarrow> event list \<Rightarrow> bool" where
  "emits_at_once due [] = (due = None)"
| "emits_at_once (Some d) (ev # evs) = (ev = EvPush d \<and> emits_at_once None evs)"
| "emits_at_once None (EvDone it err data # evs) =
     emits_at_once (if \<not> truthy err \<and> truthy data then Some data else None) evs"
| "emits_at_once None (EvPush d # evs) = False"
| "emits_at_once None (ev # evs) = emits_at_once None evs"

subsection \<open>Reading the control state\<close>

text \<open>All the calls a stage still holds: on its stack and in its listeners.\<close>

definition held :: "stage \<Rightarrow> frame multiset" where
  "held s = mset (stack s) + mset (map snd (listeners_free s))
            + mset (map snd (listeners_empty s))"

fun is_done :: "frame \<Rightarrow> bool" where
  "is_done (Work_done _ _ _) = True"
| "is_done _ = False"

fun is_write_cb :: "frame \<Rightarrow> bool" where
  "is_write_cb Write_cb = True"
| "is_write_cb _ = False"

fun is_flush_done :: "frame \<Rightarrow> bool" where
  "is_flush_done (Flush_done _) = True"
| "is_flush_done _ = False"

fun is_fail_if :: "frame \<Rightarrow> bool" where
  "is_fail_if (Fail_if _) = True"
| "is_fail_if _ = False"

text \<open>A call of \<^verbatim>\<open>end\<close> on its way: about to run, or about to be registered.\<close>

fun is_end :: "frame \<Rightarrow> bool" where
  "is_end (Call_end _ _ _) = True"
| "is_end (Once_free_end _) = True"
| "is_end _ = False"

text \<open>What a listener of this code can be: a retry of \<^verbatim>\<open>_write\<close> or of \<^verbatim>\<open>end\<close>.\<close>

fun is_call :: "frame \<Rightarrow> bool" where
  "is_call (Call_write _) = True"
| "is_call (Call_end _ _ _) = True"
| "is_call _ = False"

fun call_write_of :: "frame \<Rightarrow> item list" where
  "call_write_of (Call_write it) = [it]"
| "call_write_of _ = []"

definition writes_in :: "frame list \<Rightarrow> item list" where
  "writes_in fs = concat (map call_write_of fs)"

text \<open>The chunk the host has handed to \<^verbatim>\<open>_write\<close> and that waits for a free slot.\<close>

definition waiting :: "stage \<Rightarrow> item list" where
  "waiting s = writes_in (stack s) @ writes_in (map snd (listeners_free s))
               @ writes_in (map snd (listeners_empty s))"

subsection \<open>Invariants\<close>

definition inv_pending :: "config \<Rightarrow> stage \<Rightarrow> bool" where
  "inv_pending cfg s \<longleftrightarrow>
     pending s = int (length (inflight s)) + int (size (filter_mset is_done (held s)))
   \<and> pending s = int (length (dispatched (log s))) - int (length (completed (log s)))
   \<and> (concurrency cfg < 0 \<or> pending s \<le> concurrency cfg)"

definition inv_listeners :: "stage \<Rightarrow> bool" where
  "inv_listeners s \<longleftrightarrow>
     list_all (\<lambda>l. is_call (snd l)) (listeners_free s)
   \<and> list_all (\<lambda>l. is_call (snd l)) (listeners_empty s)"

text \<open>A pending \<^verbatim>\<open>if (err) fail(err)\<close> with a truthy error, and where its error comes from.\<close>

fun fails_next :: "frame \<Rightarrow> bool" where
  "fails_next (Fail_if e) = truthy e"
| "fails_next _ = False"

fun fail_known :: "jsval list \<Rightarrow> frame \<Rightarrow> bool" where
  "fail_known known (Fail_if e) = (truthy e \<longrightarrow> e \<in> set known)"
| "fail_known known _ = True"

definition inv_error :: "stage \<Rightarrow> bool" where
  "inv_error s \<longleftrightarrow>
     length (errors (log s)) = (if errorEmitted s then 1 else 0)
   \<and> set (errors (log s)) \<subseteq> set (failures (log s))
   \<and> list_all (fail_known (failures (log s))) (stack s)
   \<and> (failures (log s) = [] \<or> errorEmitted s \<or> list_ex fails_next (stack s))"

text \<open>The frames only the sink makes: lines 64, 68 and 106-109.\<close>

fun sink_only :: "frame \<Rightarrow> bool" where
  "sink_only (Fail_if _) = True"
| "sink_only (Flush_done _) = True"
| "sink_only Check_empty = True"
| "sink_only _ = False"

definition inv_transform :: "config \<Rightarrow> stage \<Rightarrow> bool" where
  "inv_transform cfg s \<longleftrightarrow>
     variant cfg = Sink
   \<or> (flushing s = 0
       \<and> \<not> list_ex sink_only (stack s)
       \<and> errors (log s) = take 1 (failures (log s))
       \<and> pushes (log s) = outputs (log s)
       \<and> emits_at_once None (log s))"

text \<open>A sink has no readable side: its host never keeps a chunk back.\<close>

definition inv_writable :: "config \<Rightarrow> stage \<Rightarrow> bool" where
  "inv_writable cfg s \<longleftrightarrow> variant cfg = Transform \<or> (\<not> host_paused s \<and> host_held s = None)"

text \<open>
  What a call of \<^verbatim>\<open>end\<close> leads to once the stage is drained: the flush hook in the
  sink, the host's \<^verbatim>\<open>end\<close> in the transform.
\<close>

definition honoured :: "config \<Rightarrow> event list \<Rightarrow> nat" where
  "honoured cfg evs =
     (case variant cfg of
        Sink \<Rightarrow> count_list evs EvFlush
      | Transform \<Rightarrow> count_list evs EvEnd)"

text \<open>The callbacks of the flush hook that reported a failure.\<close>

fun flush_failure_of :: "event \<Rightarrow> jsval list" where
  "flush_failure_of (EvFlushDone err) = (if truthy err then [err] else [])"
| "flush_failure_of _ = []"

definition flush_failures :: "event list \<Rightarrow> jsval list" where
  "flush_failures evs = concat (map flush_failure_of evs)"

text \<open>
  Every call of \<^verbatim>\<open>end\<close> is on its way or has been honoured or dropped; in the sink,
  every invocation of the flush hook is still running, or its callback is about to run,
  or it has failed, or the host's \<^verbatim>\<open>end\<close> has been called for it.
\<close>

definition inv_end :: "config \<Rightarrow> stage \<Rightarrow> bool" where
  "inv_end cfg s \<longleftrightarrow>
     honoured cfg (log s) + size (filter_mset is_end (held s)) \<le> count_list (log s) EvEndCall
   \<and> (variant cfg = Transform
      \<or> count_list (log s) EvEnd + length (flush_failures (log s)) + flushing s
           + size (filter_mset is_flush_done (held s))
          = count_list (log s) EvFlush)"

text \<open>The host reports \<^verbatim>\<open>finish\<close> at most once, and only after its \<^verbatim>\<open>end\<close> was called.\<close>

definition inv_finish :: "stage \<Rightarrow> bool" where
  "inv_finish s \<longleftrightarrow>
     (host_ending s \<longleftrightarrow> 0 < count_list (log s) EvEnd)
   \<and> count_list (log s) EvFinish = (if host_finished s then 1 else 0)
   \<and> (host_finished s \<longrightarrow> host_ending s)"

text \<open>The chunk the host keeps back, as a list.\<close>

definition kept :: "stage \<Rightarrow> item list" where
  "kept s = (case host_held s of None \<Rightarrow> [] | Some it \<Rightarrow> [it])"

definition inv_order :: "stage \<Rightarrow> bool" where
  "inv_order s \<longleftrightarrow>
     written (log s) = dispatched (log s) @ waiting s @ kept s @ host_buffer s
   \<and> length (waiting s) + size (filter_mset is_write_cb (held s)) + length (kept s)
       = (if host_writing s then 1 else 0)
   \<and> (host_writing s \<or> host_buffer s = [])"

subsection \<open>Waiting for a slot\<close>

fun is_call_write :: "frame \<Rightarrow> bool" where
  "is_call_write (Call_write _) = True"
| "is_call_write _ = False"

fun is_call_end :: "frame \<Rightarrow> bool" where
  "is_call_end (Call_end _ _ _) = True"
| "is_call_end _ = False"

definition ids_ok :: "stage \<Rightarrow> bool" where
  "ids_ok s \<longleftrightarrow>
     distinct (map fst (listeners_free s)) \<and> distinct (map fst (listeners_empty s))
   \<and> list_all (\<lambda>l. fst l < next_id s) (listeners_free s)
   \<and> list_all (\<lambda>l. fst l < next_id s) (listeners_empty s)"

text \<open>
  A call of \<^verbatim>\<open>_write\<close> (\<^verbatim>\<open>_transform\<close>) that waits for \<^verbatim>\<open>free\<close> waits with reason:
  the pool is full, or the emit under way is about to call it.
\<close>

definition blocked :: "config \<Rightarrow> stage \<Rightarrow> nat \<times> frame \<Rightarrow> bool" where
  "blocked cfg s l \<longleftrightarrow>
     \<not> is_call_write (snd l) \<or> concurrency cfg \<le> pending s
   \<or> Fire Free (fst l) \<in> set (stack s)"

definition inv_admit :: "config \<Rightarrow> stage \<Rightarrow> bool" where
  "inv_admit cfg s \<longleftrightarrow>
     ids_ok s
   \<and> list_all (\<lambda>l. is_call_end (snd l)) (listeners_empty s)
   \<and> list_all (blocked cfg s) (listeners_free s)"

subsection \<open>The drained stage\<close>

text \<open>
  What is needed to show that a waiting \<^verbatim>\<open>end\<close> is always woken up again. It holds for
  a stage with a limit of at least 1 and work that calls back after it has returned.
\<close>

definition asynchronous :: "config \<Rightarrow> bool" where
  "asynchronous cfg \<longleftrightarrow> (\<forall>it. work cfg it = None) \<and> 1 \<le> concurrency cfg"

fun is_once_free_end :: "frame \<Rightarrow> bool" where
  "is_once_free_end (Once_free_end _) = True"
| "is_once_free_end _ = False"

fun top_host_write :: "frame list \<Rightarrow> bool" where
  "top_host_write (Host_write _ # _) = True"
| "top_host_write _ = False"

text \<open>Lines 67-68: in the sink the check for \<^verbatim>\<open>empty\<close> follows every \<^verbatim>\<open>callback()\<close>.\<close>

fun paired :: "frame list \<Rightarrow> bool" where
  "paired [] = True"
| "paired (Write_cb # Check_empty # fs) = paired fs"
| "paired (Write_cb # fs) = False"
| "paired (f # fs) = paired fs"

text \<open>
  A call of \<^verbatim>\<open>_write\<close> is about to run in this turn. With a free slot it dispatches,
  without one the counter is positive already: either way work will be in flight,
  and its callback will emit \<^verbatim>\<open>free\<close>.
\<close>

definition write_coming :: "stage \<Rightarrow> bool" where
  "write_coming s \<longleftrightarrow>
     list_ex is_call_write (stack s)
   \<or> list_ex (\<lambda>l. is_call_write (snd l) \<and> Fire Free (fst l) \<in> set (stack s))
        (listeners_free s)"

text \<open>The same holds of a chunk the host keeps back, once the consumer reads.\<close>

definition busy :: "stage \<Rightarrow> bool" where
  "busy s \<longleftrightarrow> 0 < pending s \<or> write_coming s \<or> host_held s \<noteq> None"

text \<open>
  A listener is covered when the event it waits for is still to come: \<^verbatim>\<open>free\<close> while
  work is or will be in flight, \<^verbatim>\<open>empty\<close> while the host's buffer holds a chunk or the
  check of line 68 is still to run; or when the current emit is about to call it.
\<close>

definition covered_free :: "stage \<Rightarrow> nat \<times> frame \<Rightarrow> bool" where
  "covered_free s l \<longleftrightarrow> busy s \<or> Fire Free (fst l) \<in> set (stack s)"

definition covered_empty :: "stage \<Rightarrow> nat \<times> frame \<Rightarrow> bool" where
  "covered_empty s l \<longleftrightarrow>
     host_buffer s \<noteq> [] \<or> Fire Empty (fst l) \<in> set (stack s) \<or> Check_empty \<in> set (stack s)"

definition inv_live :: "config \<Rightarrow> stage \<Rightarrow> bool" where
  "inv_live cfg s \<longleftrightarrow>
     ids_ok s
   \<and> list_all (\<lambda>l. is_call_end (snd l)) (listeners_empty s)
   \<and> (variant cfg = Sink \<longrightarrow> paired (stack s))
   \<and> (variant cfg = Transform \<longrightarrow> listeners_empty s = [])
   \<and> (list_ex is_done (stack s) \<longrightarrow> length (stack s) = 1)
   \<and> (list_ex is_write_cb (stack s) \<longrightarrow> 0 < pending s)
   \<and> list_all (covered_free s) (listeners_free s)
   \<and> list_all (covered_empty s) (listeners_empty s)
   \<and> (list_ex is_once_free_end (stack s) \<longrightarrow> busy s \<or> top_host_write (stack s))"

text \<open>As long as no error is recorded, no call of \<^verbatim>\<open>end\<close> is lost.\<close>

definition inv_end_exact :: "config \<Rightarrow> stage \<Rightarrow> bool" where
  "inv_end_exact cfg s \<longleftrightarrow>
     errorEmitted s
   \<or> honoured cfg (log s) + size (filter_mset is_end (held s)) = count_list (log s) EvEndCall"

subsection \<open>Example stages and schedules\<close>

text \<open>Work that calls back later, whatever the chunk.\<close>

definition async_work :: work_fn where
  "async_work it = None"

definition sink2 :: config where
  "sink2 = writable async_work (ArgObject \<lparr>opt_concurrency = Some 2, opt_stream = 0\<rparr>)
             ArgUndefined"

text \<open>A turn: what starts it, and the calls it sets off one after the other.\<close>

definition turn :: "action \<Rightarrow> nat \<Rightarrow> action list" where
  "turn a n = a # replicate n Tau"

definition sink1 :: config where
  "sink1 = writable async_work (ArgObject \<lparr>opt_concurrency = Some 1, opt_stream = 0\<rparr>)
             ArgUndefined"

text \<open>A sink of one slot whose flush hook fails at once.\<close>

definition sink1_flush_fails :: config where
  "sink1_flush_fails =
     writable async_work (ArgFunction (Some (JStr ''flush failed'')))
       (ArgObject \<lparr>opt_concurrency = Some 1, opt_stream = 0\<rparr>)"

definition transform1 :: config where
  "transform1 = transform async_work (ArgObject \<lparr>opt_concurrency = Some 1, opt_stream = 0\<rparr>)"

definition transform3 :: config where
  "transform3 = transform async_work (ArgObject \<lparr>opt_concurrency = Some 3, opt_stream = 0\<rparr>)"

text \<open>Three writes into a sink of two slots, then the second piece of work calls back.\<close>

definition sched_three_writes :: "action list" where
  "sched_three_writes =
     turn (Write (JStr ''a'') JUndefined) 4 @ turn (Write (JStr ''b'') JUndefined) 4
     @ turn (Write (JStr ''c'') JUndefined) 2 @ turn (Complete 1 JNull JNull) 6"

text \<open>Two writes into a sink of two slots; both pieces of work fail, one after the other.\<close>

definition sched_two_failures :: "action list" where
  "sched_two_failures =
     turn (Write (JStr ''a'') JUndefined) 4 @ turn (Write (JStr ''b'') JUndefined) 4
     @ turn (Complete 0 (JStr ''e1'') JUndefined) 2
     @ turn (Complete 0 (JStr ''e2'') JUndefined) 2"



text \<open>
  Work that calls back before it returns, in a sink of one slot; \<^verbatim>\<open>end('z')\<close> on the
  idle stage, run until nothing is left to call.
\<close>

definition sync_work :: work_fn where
  "sync_work it = Some (JNull, JUndefined)"



text \<open>The same for a transform of one slot, the work giving an output.\<close>

definition sched_transform_drained :: "action list" where
  "sched_transform_drained =
     turn (Write (JStr ''a'') JUndefined) 3 @ turn (End JUndefined JUndefined JUndefined) 1
     @ turn (Complete 0 JNull (JStr ''out'')) 2"

text \<open>One write and \<^verbatim>\<open>end()\<close>; then the work of the only chunk fails.\<close>

definition sched_last_fails_sink :: "action list" where
  "sched_last_fails_sink =
     turn (Write (JStr ''a'') JUndefined) 4 @ turn (End JUndefined JUndefined JUndefined) 1
     @ turn (Complete 0 (JStr ''boom'') JUndefined) 5"

definition sched_last_fails_transform :: "action list" where
  "sched_last_fails_transform =
     turn (Write (JStr ''a'') JUndefined) 3 @ turn (End JUndefined JUndefined JUndefined) 1
     @ turn (Complete 0 (JStr ''boom'') JUndefined) 3"

text \<open>
  Three writes into a transform of three slots. The third piece of work gives the number 0,
  then the first fails, then the second gives a string.
\<close>

definition sched_outputs :: "action list" where
  "sched_outputs =
     turn (Write (JStr ''a'') JUndefined) 3 @ turn (Write (JStr ''b'') JUndefined) 3
     @ turn (Write (JStr ''c'') JUndefined) 3 @ turn (Complete 2 JNull (JNum 0)) 1
     @ turn (Complete 0 (JStr ''boom'') JUndefined) 1 @ turn (Complete 0 JNull (JStr ''x'')) 1"

text \<open>A write whose work fails, for the sink and for the transform; then another write.\<close>

definition sched_failed_sink :: "action list" where
  "sched_failed_sink =
     turn (Write (JStr ''a'') JUndefined) 4 @ turn (Complete 0 (JStr ''boom'') JUndefined) 2"

definition sched_failed_transform :: "action list" where
  "sched_failed_transform =
     turn (Write (JStr ''a'') JUndefined) 3 @ turn (Complete 0 (JStr ''boom'') JUndefined) 1"

text \<open>Three writes into a stage of one slot, then the first piece of work calls back.\<close>

definition sched_queue_sink :: "action list" where
  "sched_queue_sink =
     turn (Write (JStr ''a'') JUndefined) 4 @ turn (Write (JStr ''b'') JUndefined) 2
     @ turn (Write (JStr ''c'') JUndefined) 1 @ turn (Complete 0 JNull JUndefined) 7"

text \<open>The same work in a transform of one slot, and \<^verbatim>\<open>end('z')\<close> on the idle stage.\<close>

definition transform1_sync :: config where
  "transform1_sync =
     transform sync_work (ArgObject \<lparr>opt_concurrency = Some 1, opt_stream = 0\<rparr>)"

definition sched_end_with_chunk_transform :: "action list" where
  "sched_end_with_chunk_transform = turn (End (JStr ''z'') JUndefined JUndefined) 6"



definition sched_end_chunk_transform :: "action list" where
  "sched_end_chunk_transform =
     turn (End (JStr ''z'') JUndefined JUndefined) 5 @ turn (Complete 0 JNull (JStr ''out'')) 3"

text \<open>
  A transform of one slot whose work calls back before it returns for the chunk \<^verbatim>\<open>'b'\<close>
  and later for every other chunk. Three writes and \<^verbatim>\<open>end()\<close>; the first piece of work
  calls back; the host reports \<^verbatim>\<open>finish\<close>; the work of the third chunk calls back.
\<close>

definition work_b_at_once :: work_fn where
  "work_b_at_once it = (if fst it = JStr ''b'' then Some (JNull, JStr ''B'') else None)"

definition transform1_b :: config where
  "transform1_b =
     transform work_b_at_once (ArgObject \<lparr>opt_concurrency = Some 1, opt_stream = 0\<rparr>)"

definition sched_end_overtakes :: "action list" where
  "sched_end_overtakes =
     turn (Write (JStr ''a'') JUndefined) 3 @ turn (Write (JStr ''b'') JUndefined) 2
     @ turn (Write (JStr ''c'') JUndefined) 1 @ turn (End JUndefined JUndefined JUndefined) 1
     @ turn (Complete 0 JNull (JStr ''A'')) 10 @ [Finish]
     @ turn (Complete 0 JNull (JStr ''C'')) 1"

text \<open>
  A transform of one slot whose readable side does not ask for data: the chunk written is
  kept by the host. \<^verbatim>\<open>end()\<close>; the consumer reads; the host reports \<^verbatim>\<open>finish\<close>;
  the work of the chunk calls back.
\<close>

definition sched_end_before_read :: "action list" where
  "sched_end_before_read =
     [Pause] @ turn (Write (JStr ''a'') JUndefined) 1
     @ turn (End JUndefined JUndefined JUndefined) 1 @ turn Read 2 @ [Finish]
     @ turn (Complete 0 JNull (JStr ''A'')) 1"

text \<open>
  Three writes into a transform of one slot, and the first piece of work calls back: the
  second chunk is dispatched, the third waits. Then the other two pieces of work call
  back, one after the other.
\<close>

definition sched_blocked_transform :: "action list" where
  "sched_blocked_transform =
     turn (Write (JStr ''a'') JUndefined) 3 @ turn (Write (JStr ''b'') JUndefined) 2
     @ turn (Write (JStr ''c'') JUndefined) 1 @ turn (Complete 0 JNull JUndefined) 5"

definition sched_queue_transform :: "action list" where
  "sched_queue_transform =
     sched_blocked_transform @ turn (Complete 0 JNull JUndefined) 4
     @ turn (Complete 0 JNull JUndefined) 1"

subsection \<open>The claims as the specification words them\<close>

text \<open>
  C5 as stated: the emitted sequence is the non-null outputs of the error-free
  completions that come before any error, in completion order.
\<close>

definition claimed_emitted :: "event list \<Rightarrow> jsval list" where
  "claimed_emitted evs =
     map (\<lambda>d. snd (snd d))
       (filter (\<lambda>d. snd (snd d) \<noteq> JNull \<and> snd (snd d) \<noteq> JUndefined)
         (takeWhile (\<lambda>d. \<not> truthy (fst (snd d))) (completed evs)))"

section \<open>General lemmas\<close>

lemmas stage_defs = push_def record_ev_def once_def emit_def
  writable_write_def transform_transform_def writable_end_def transform_end_def
  writable_work_done_def transform_work_done_def host_onwrite_def check_empty_def
  fail_if_def fail_def flush_done_def host_write_def once_free_end_def call_work_def
  call_flush_def host_end_def host_call_def host_read_def host_finish_def
  host_can_finish_def

lemmas log_defs = written_def dispatched_def completed_def errors_def failures_def
  pushes_def outputs_def flush_failures_def

lemma run_invariant:
  assumes "P s" and "\<And>a s s'. P s \<Longrightarrow> step cfg a s = Some s' \<Longrightarrow> P s'"
    and "run cfg as s = Some s'"
  shows "P s'"
  using assms(1,3)
proof (induction as arbitrary: s)
  case Nil
  then show ?case by simp
next
  case (Cons a as)
  then show ?case using assms(2) by (auto split: option.splits)
qed

lemma find_mem: "find P xs = Some x \<Longrightarrow> x \<in> set xs"
  by (induction xs) (auto split: if_splits)

lemma image_mset_remove:
  "x \<in> set ls \<Longrightarrow> add_mset (f x) (image_mset f (mset ls - {#x#})) = image_mset f (mset ls)"
  by (metis image_mset_add_mset insert_DiffM set_mset_mset)

lemma image_mset_remove_snd:
  "(a, b) \<in> set ls \<Longrightarrow>
     add_mset b (image_mset snd (mset ls - {#(a, b)#})) = image_mset snd (mset ls)"
  using image_mset_remove [of "(a, b)" ls snd] by simp

lemma held_fire [simp]: "held (fire ev i s) = held s"
  by (cases ev)
    (auto simp: fire_def held_def push_def image_mset_remove_snd dest!: find_mem
      split: option.splits)

lemma fire_fields [simp]:
  "pending (fire ev i s) = pending s" "inflight (fire ev i s) = inflight s"
  "log (fire ev i s) = log s" "errorEmitted (fire ev i s) = errorEmitted s"
  "host_buffer (fire ev i s) = host_buffer s" "host_writing (fire ev i s) = host_writing s"
  "flushing (fire ev i s) = flushing s" "host_held (fire ev i s) = host_held s"
  "host_paused (fire ev i s) = host_paused s" "host_ending (fire ev i s) = host_ending s"
  "host_finished (fire ev i s) = host_finished s"
  by (cases ev; auto simp: fire_def push_def split: option.splits)+

lemma held_pop: "stack s = f # fs \<Longrightarrow> held (s\<lparr>stack := fs\<rparr>) = held s - {#f#}"
  by (simp add: held_def)

lemma held_pop_size:
  "stack s = f # fs \<Longrightarrow>
     size (filter_mset P (held s)) = size (filter_mset P (held (s\<lparr>stack := fs\<rparr>))) + (if P f then 1 else 0)"
  by (simp add: held_def)

subsection \<open>The counter\<close>

lemma inv_pending_exec:
  assumes "inv_pending cfg s" "stack s = f # fs"
  shows "inv_pending cfg (exec cfg f (s\<lparr>stack := fs\<rparr>))"
proof (cases "\<exists>ev i. f = Fire ev i")
  case True
  then show ?thesis using assms held_pop_size [OF assms(2), of is_done]
    by (auto simp: inv_pending_def)
next
  case False
  then show ?thesis using assms
    by (cases f)
      (auto simp: inv_pending_def held_def stage_defs log_defs Let_def
        split: variant.splits option.splits list.splits prod.splits if_splits)
qed

lemma inv_pending_step:
  assumes "inv_pending cfg s" "step cfg a s = Some s'"
  shows "inv_pending cfg s'"
proof (cases a)
  case Tau
  then show ?thesis using assms inv_pending_exec by (auto split: list.splits)
next
  case (Complete k err data)
  then show ?thesis using assms
    by (auto simp: inv_pending_def held_def push_def split: if_splits)
qed (use assms in \<open>auto simp: inv_pending_def held_def push_def record_ev_def log_defs
       host_read_def host_finish_def split: if_splits option.splits\<close>)

lemma inv_pending_init: "inv_pending cfg init"
  by (auto simp: inv_pending_def init_def held_def log_defs)

lemma inv_pending_run: "run cfg as init = Some s \<Longrightarrow> inv_pending cfg s"
  using inv_pending_init inv_pending_step by (rule run_invariant)

subsection \<open>Listeners\<close>

lemma list_all_remove1: "list_all P xs \<Longrightarrow> list_all P (remove1 x xs)"
  by (induction xs) auto

lemma inv_listeners_exec:
  assumes "inv_listeners s"
  shows "inv_listeners (exec cfg f (s\<lparr>stack := fs\<rparr>))"
proof (cases f)
  case (Fire ev i)
  then show ?thesis using assms
    by (cases ev) (auto simp: inv_listeners_def fire_def push_def list_all_remove1 split: option.splits)
qed (use assms in \<open>auto simp: inv_listeners_def stage_defs Let_def
       split: variant.splits option.splits list.splits prod.splits if_splits\<close>)

lemma inv_listeners_step:
  assumes "inv_listeners s" "step cfg a s = Some s'"
  shows "inv_listeners s'"
proof (cases a)
  case Tau
  then show ?thesis using assms inv_listeners_exec by (auto split: list.splits)
qed (use assms in \<open>auto simp: inv_listeners_def push_def record_ev_def host_read_def
       host_finish_def split: if_splits option.splits\<close>)

lemma inv_listeners_run: "run cfg as init = Some s \<Longrightarrow> inv_listeners s"
proof -
  have "inv_listeners init" by (simp add: inv_listeners_def init_def)
  then show "run cfg as init = Some s \<Longrightarrow> inv_listeners s"
    using inv_listeners_step by (rule run_invariant)
qed

lemma log_append [simp]:
  "written (evs @ evs') = written evs @ written evs'"
  "dispatched (evs @ evs') = dispatched evs @ dispatched evs'"
  "completed (evs @ evs') = completed evs @ completed evs'"
  "errors (evs @ evs') = errors evs @ errors evs'"
  "failures (evs @ evs') = failures evs @ failures evs'"
  "pushes (evs @ evs') = pushes evs @ pushes evs'"
  "outputs (evs @ evs') = outputs evs @ outputs evs'"
  "flush_failures (evs @ evs') = flush_failures evs @ flush_failures evs'"
  by (simp_all add: log_defs)

lemma log_Cons [simp]:
  "written (e # evs) = write_of e @ written evs"
  "dispatched (e # evs) = dispatch_of e @ dispatched evs"
  "completed (e # evs) = done_of e @ completed evs"
  "errors (e # evs) = error_of e @ errors evs"
  "failures (e # evs) = failure_of e @ failures evs"
  "pushes (e # evs) = push_of e @ pushes evs"
  "outputs (e # evs) = output_of e @ outputs evs"
  "flush_failures (e # evs) = flush_failure_of e @ flush_failures evs"
  by (simp_all add: log_defs)

lemma log_empty [simp]:
  "written [] = []" "dispatched [] = []" "completed [] = []" "errors [] = []"
  "failures [] = []" "pushes [] = []" "outputs [] = []" "flush_failures [] = []"
  by (simp_all add: log_defs)

subsection \<open>Errors\<close>

lemma fail_known_mono:
  "list_all (fail_known known) fs \<Longrightarrow> list_all (fail_known (known @ extra)) fs"
proof (induction fs)
  case Nil
  then show ?case by simp
next
  case (Cons f fs)
  then show ?case by (cases f) auto
qed

lemma is_call_fail_known: "is_call f \<Longrightarrow> fail_known known f"
  by (cases f) auto

lemma fail_known_fires: "list_all (fail_known known) (map (\<lambda>l. Fire ev (fst l)) ls)"
  by (induction ls) auto

lemma inv_error_exec:
  assumes "inv_error s" "inv_listeners s" "stack s = f # fs"
  shows "inv_error (exec cfg f (s\<lparr>stack := fs\<rparr>))"
proof (cases f)
  case (Fire ev i)
  then show ?thesis using assms
    by (cases ev)
      (auto simp: inv_error_def inv_listeners_def fire_def push_def list_all_iff
        is_call_fail_known dest!: find_mem split: option.splits)
qed (use assms in \<open>auto simp: inv_error_def stage_defs Let_def fail_known_mono fail_known_fires
       split: variant.splits option.splits list.splits prod.splits if_splits\<close>)

lemma inv_error_step:
  assumes "inv_error s" "inv_listeners s" "step cfg a s = Some s'"
  shows "inv_error s'"
proof (cases a)
  case Tau
  then show ?thesis using assms inv_error_exec by (auto split: list.splits)
qed (use assms in \<open>auto simp: inv_error_def push_def record_ev_def host_read_def
       host_finish_def split: if_splits option.splits\<close>)

lemma inv_error_run:
  assumes "run cfg as init = Some s"
  shows "inv_error s"
proof -
  have "inv_error init \<and> inv_listeners init"
    by (simp add: inv_error_def inv_listeners_def init_def)
  then have "inv_error s \<and> inv_listeners s"
    using _ assms
  proof (rule run_invariant)
    fix a s s'
    assume "inv_error s \<and> inv_listeners s" "step cfg a s = Some s'"
    then show "inv_error s' \<and> inv_listeners s'"
      using inv_error_step inv_listeners_step by blast
  qed
  then show ?thesis by simp
qed

subsection \<open>The transform\<close>

lemma emits_at_once_append:
  "emits_at_once due evs \<Longrightarrow> emits_at_once due (evs @ evs') = emits_at_once None evs'"
  by (induction due evs rule: emits_at_once.induct) auto

lemma take1_snoc: "take (Suc 0) (xs @ [x]) = (if xs = [] then [x] else take (Suc 0) xs)"
  by (cases xs) auto

lemma is_call_not_sink_only: "is_call f \<Longrightarrow> \<not> sink_only f"
  by (cases f) auto

lemma fires_not_sink_only: "\<not> list_ex sink_only (map (\<lambda>l. Fire ev (fst l)) ls)"
  by (induction ls) auto

lemma inv_transform_exec:
  assumes "inv_transform cfg s" "inv_error s" "inv_listeners s" "stack s = f # fs"
  shows "inv_transform cfg (exec cfg f (s\<lparr>stack := fs\<rparr>))"
proof (cases "variant cfg")
  case Sink
  then show ?thesis by (simp add: inv_transform_def)
next
  case Transform
  show ?thesis
  proof (cases f)
    case (Fire ev i)
    then show ?thesis using assms Transform
      by (cases ev)
        (auto simp: inv_transform_def inv_listeners_def fire_def push_def list_all_iff
          is_call_not_sink_only dest!: find_mem split: option.splits)
  qed (use assms Transform in \<open>auto simp: inv_transform_def inv_error_def stage_defs Let_def
          emits_at_once_append take1_snoc fires_not_sink_only
          split: option.splits list.splits prod.splits if_splits\<close>)
qed

lemma inv_transform_step:
  assumes "inv_transform cfg s" "inv_error s" "inv_listeners s" "step cfg a s = Some s'"
  shows "inv_transform cfg s'"
proof (cases a)
  case Tau
  then show ?thesis using assms inv_transform_exec by (auto split: list.splits)
next
  case (FlushComplete err)
  then show ?thesis using assms by (auto simp: inv_transform_def split: if_splits)
qed (use assms in \<open>auto simp: inv_transform_def push_def record_ev_def host_read_def
       host_finish_def emits_at_once_append split: if_splits option.splits\<close>)

subsection \<open>Ends and flushes\<close>

lemma count_list_snoc [simp]:
  "count_list (xs @ [y]) x = count_list xs x + (if x = y then 1 else 0)"
  by (induction xs) auto

lemma filter_fires [simp]:
  "(\<And>i. \<not> P (Fire ev i)) \<Longrightarrow> filter_mset P (image_mset (\<lambda>l. Fire ev (fst l)) M) = {#}"
  by (induction M) auto

lemma inv_end_exec:
  assumes "inv_end cfg s" "inv_transform cfg s" "stack s = f # fs"
  shows "inv_end cfg (exec cfg f (s\<lparr>stack := fs\<rparr>))"
proof (cases "\<exists>ev i. f = Fire ev i")
  case True
  then show ?thesis
    using assms held_pop_size [OF assms(3), of is_end]
      held_pop_size [OF assms(3), of is_flush_done]
    by (auto simp: inv_end_def)
next
  case False
  then show ?thesis using assms
    by (cases f)
      (auto simp: inv_end_def inv_transform_def honoured_def held_def stage_defs Let_def
        split: variant.splits option.splits list.splits prod.splits if_splits)
qed

lemma inv_end_step:
  assumes "inv_end cfg s" "inv_transform cfg s" "step cfg a s = Some s'"
  shows "inv_end cfg s'"
proof (cases a)
  case Tau
  then show ?thesis using assms inv_end_exec by (auto split: list.splits)
qed (use assms in \<open>auto simp: inv_end_def inv_transform_def honoured_def held_def push_def
       record_ev_def host_read_def host_finish_def
       split: if_splits option.splits variant.splits\<close>)

lemma inv_end_exact_exec:
  assumes "inv_end_exact cfg s" "inv_transform cfg s" "stack s = f # fs"
  shows "inv_end_exact cfg (exec cfg f (s\<lparr>stack := fs\<rparr>))"
proof (cases "\<exists>ev i. f = Fire ev i")
  case True
  then show ?thesis
    using assms held_pop_size [OF assms(3), of is_end]
    by (auto simp: inv_end_exact_def)
next
  case False
  then show ?thesis using assms
    by (cases f)
      (auto simp: inv_end_exact_def inv_transform_def honoured_def held_def stage_defs Let_def
        split: variant.splits option.splits list.splits prod.splits if_splits)
qed

lemma inv_end_exact_step:
  assumes "inv_end_exact cfg s" "inv_transform cfg s" "step cfg a s = Some s'"
  shows "inv_end_exact cfg s'"
proof (cases a)
  case Tau
  then show ?thesis using assms inv_end_exact_exec by (auto split: list.splits)
qed (use assms in \<open>auto simp: inv_end_exact_def honoured_def held_def push_def record_ev_def
       host_read_def host_finish_def split: if_splits option.splits variant.splits\<close>)

subsection \<open>The host\<close>

lemma inv_writable_step:
  assumes "inv_writable cfg s" "step cfg a s = Some s'"
  shows "inv_writable cfg s'"
proof (cases "variant cfg")
  case Transform
  then show ?thesis by (simp add: inv_writable_def)
next
  case Sink
  show ?thesis
  proof (cases a)
    case Tau
    then obtain f fs where st: "stack s = f # fs" and s': "s' = exec cfg f (s\<lparr>stack := fs\<rparr>)"
      using assms(2) by (auto split: list.splits)
    show ?thesis using assms(1) Sink unfolding s'
      by (cases f)
        (auto simp: inv_writable_def stage_defs Let_def
          split: option.splits list.splits prod.splits if_splits)
  qed (use assms Sink in \<open>auto simp: inv_writable_def push_def record_ev_def host_finish_def
         split: if_splits\<close>)
qed

lemma inv_finish_step:
  assumes "inv_finish s" "step cfg a s = Some s'"
  shows "inv_finish s'"
proof (cases a)
  case Tau
  then obtain f fs where st: "stack s = f # fs" and s': "s' = exec cfg f (s\<lparr>stack := fs\<rparr>)"
    using assms(2) by (auto split: list.splits)
  show ?thesis using assms(1) unfolding s'
    by (cases f)
      (auto simp: inv_finish_def stage_defs Let_def
        split: variant.splits option.splits list.splits prod.splits if_splits)
qed (use assms in \<open>auto simp: inv_finish_def push_def record_ev_def host_read_def
       host_finish_def host_can_finish_def split: if_splits option.splits\<close>)

subsection \<open>Order of admission\<close>

lemma writes_in_simps [simp]:
  "writes_in [] = []"
  "writes_in (f # fs) = call_write_of f @ writes_in fs"
  "writes_in (fs @ gs) = writes_in fs @ writes_in gs"
  by (simp_all add: writes_in_def)

lemma writes_in_fires [simp]: "writes_in (map (\<lambda>l. Fire ev (fst l)) ls) = []"
  by (induction ls) auto

lemma mset_writes_in: "mset (writes_in fs) = (\<Sum>f\<in>#mset fs. mset (call_write_of f))"
  by (induction fs) auto

lemma mset_waiting:
  "mset (waiting s) = (\<Sum>f\<in>#held s. mset (call_write_of f))"
  by (simp add: waiting_def held_def mset_writes_in)

lemma perm_short: "mset xs = mset ys \<Longrightarrow> length xs \<le> 1 \<Longrightarrow> xs = ys"
  by (cases xs) (auto simp: eq_commute [of "add_mset _ _"])

lemma waiting_fire: "length (waiting s) \<le> 1 \<Longrightarrow> waiting (fire ev i s) = waiting s"
proof -
  assume short: "length (waiting s) \<le> 1"
  have "mset (waiting s) = mset (waiting (fire ev i s))" by (simp add: mset_waiting)
  then show ?thesis using short perm_short by metis
qed

lemma waiting_pop:
  "stack s = f # fs \<Longrightarrow> waiting s = call_write_of f @ waiting (s\<lparr>stack := fs\<rparr>)"
  by (simp add: waiting_def)

lemma kept_fire [simp]: "kept (fire ev i s) = kept s"
  by (simp add: kept_def)

lemma kept_pop [simp]: "kept (s\<lparr>stack := fs\<rparr>) = kept s"
  by (simp add: kept_def)

lemma inv_order_exec:
  assumes "inv_order s" "stack s = f # fs"
  shows "inv_order (exec cfg f (s\<lparr>stack := fs\<rparr>))"
proof (cases "\<exists>ev i. f = Fire ev i")
  case True
  then have "waiting (s\<lparr>stack := fs\<rparr>) = waiting s"
    using waiting_pop [OF assms(2)] by auto
  moreover have "length (waiting s) \<le> 1"
    using assms(1) by (auto simp: inv_order_def split: if_splits)
  ultimately have "waiting (exec cfg f (s\<lparr>stack := fs\<rparr>)) = waiting s"
    using True waiting_fire [of "s\<lparr>stack := fs\<rparr>"] by auto
  then show ?thesis
    using assms True held_pop_size [OF assms(2), of is_write_cb]
    by (auto simp: inv_order_def)
next
  case False
  then show ?thesis using assms
    by (cases f)
      (auto simp: inv_order_def held_def waiting_def kept_def stage_defs Let_def
        split: variant.splits option.splits list.splits prod.splits if_splits)
qed

lemma push_fields [simp]:
  "pending (push fs s) = pending s" "inflight (push fs s) = inflight s"
  "log (push fs s) = log s" "errorEmitted (push fs s) = errorEmitted s"
  "host_buffer (push fs s) = host_buffer s" "host_writing (push fs s) = host_writing s"
  "flushing (push fs s) = flushing s" "stack (push fs s) = fs @ stack s"
  "listeners_free (push fs s) = listeners_free s"
  "listeners_empty (push fs s) = listeners_empty s"
  "host_held (push fs s) = host_held s" "host_paused (push fs s) = host_paused s"
  "host_ending (push fs s) = host_ending s" "host_finished (push fs s) = host_finished s"
  by (simp_all add: push_def)

lemma record_ev_fields [simp]:
  "pending (record_ev e s) = pending s" "inflight (record_ev e s) = inflight s"
  "log (record_ev e s) = log s @ [e]" "errorEmitted (record_ev e s) = errorEmitted s"
  "host_buffer (record_ev e s) = host_buffer s" "host_writing (record_ev e s) = host_writing s"
  "flushing (record_ev e s) = flushing s" "stack (record_ev e s) = stack s"
  "listeners_free (record_ev e s) = listeners_free s"
  "listeners_empty (record_ev e s) = listeners_empty s"
  "host_held (record_ev e s) = host_held s" "host_paused (record_ev e s) = host_paused s"
  "host_ending (record_ev e s) = host_ending s"
  "host_finished (record_ev e s) = host_finished s"
  by (simp_all add: record_ev_def)

lemma held_simps [simp]:
  "held (push fs s) = mset fs + held s"
  "held (record_ev e s) = held s"
  "held (s\<lparr>inflight := xs\<rparr>) = held s"
  "held (s\<lparr>flushing := n\<rparr>) = held s"
  "held (s\<lparr>host_paused := b\<rparr>) = held s"
  "held (s\<lparr>host_held := h\<rparr>) = held s"
  "held (s\<lparr>host_finished := b\<rparr>) = held s"
  by (simp_all add: held_def)

lemma waiting_simps [simp]:
  "waiting (push fs s) = writes_in fs @ waiting s"
  "waiting (record_ev e s) = waiting s"
  "waiting (s\<lparr>inflight := xs\<rparr>) = waiting s"
  "waiting (s\<lparr>flushing := n\<rparr>) = waiting s"
  "waiting (s\<lparr>host_paused := b\<rparr>) = waiting s"
  "waiting (s\<lparr>host_held := h\<rparr>) = waiting s"
  "waiting (s\<lparr>host_finished := b\<rparr>) = waiting s"
  by (simp_all add: waiting_def)

lemma kept_simps [simp]:
  "kept (push fs s) = kept s"
  "kept (record_ev e s) = kept s"
  "kept (s\<lparr>inflight := xs\<rparr>) = kept s"
  "kept (s\<lparr>flushing := n\<rparr>) = kept s"
  "kept (s\<lparr>host_paused := b\<rparr>) = kept s"
  "kept (s\<lparr>host_finished := b\<rparr>) = kept s"
  "kept (s\<lparr>host_held := None\<rparr>) = []"
  "kept (s\<lparr>host_held := Some it\<rparr>) = [it]"
  by (simp_all add: kept_def push_def record_ev_def)

lemma inv_order_step:
  assumes "inv_order s" "step cfg a s = Some s'"
  shows "inv_order s'"
proof (cases a)
  case Tau
  then show ?thesis using assms inv_order_exec by (auto split: list.splits)
next
  case Read
  then show ?thesis using assms
    by (cases "host_held s")
      (auto simp: inv_order_def host_read_def kept_def split: if_splits)
qed (use assms in \<open>auto simp: inv_order_def host_finish_def split: if_splits\<close>)

subsection \<open>Waiting for a slot\<close>

lemma find_id_Some:
  "find (\<lambda>x. fst x = i) ls = Some l \<Longrightarrow> l \<in> set ls \<and> fst l = i"
  by (induction ls) (auto split: if_splits)

lemma distinct_remove1_fst: "distinct (map fst ls) \<Longrightarrow> distinct (map fst (remove1 l ls))"
  by (induction ls) (auto simp: image_iff dest: notin_set_remove1)

lemma distinct_other_id:
  "distinct (map fst ls) \<Longrightarrow> l \<in> set ls \<Longrightarrow> l' \<in> set ls \<Longrightarrow> l' \<noteq> l \<Longrightarrow> fst l' \<noteq> fst l"
  by (metis eq_key_imp_eq_value prod.collapse)

lemma remove1_distinct_mem:
  assumes "distinct (map fst ls)" "l0 \<in> set ls"
  shows "l \<in> set (remove1 l0 ls) \<longleftrightarrow> l \<in> set ls \<and> fst l \<noteq> fst l0"
proof -
  have d: "distinct ls" using assms(1) by (rule distinct_map [THEN iffD1, THEN conjunct1])
  have "l \<in> set ls \<Longrightarrow> l \<noteq> l0 \<Longrightarrow> fst l \<noteq> fst l0"
    using assms distinct_other_id by metis
  then show ?thesis using d by auto
qed

lemma once_fields [simp]:
  "pending (once ev f s) = pending s" "inflight (once ev f s) = inflight s"
  "log (once ev f s) = log s" "errorEmitted (once ev f s) = errorEmitted s"
  "host_buffer (once ev f s) = host_buffer s" "host_writing (once ev f s) = host_writing s"
  "flushing (once ev f s) = flushing s" "stack (once ev f s) = stack s"
  "host_held (once ev f s) = host_held s" "host_paused (once ev f s) = host_paused s"
  "next_id (once ev f s) = Suc (next_id s)"
  "listeners_free (once Free f s) = listeners_free s @ [(next_id s, f)]"
  "listeners_free (once Empty f s) = listeners_free s"
  "listeners_empty (once Empty f s) = listeners_empty s @ [(next_id s, f)]"
  "listeners_empty (once Free f s) = listeners_empty s"
  by (cases ev; simp add: once_def)+

lemma next_id_simps [simp]:
  "next_id (push fs s) = next_id s" "next_id (record_ev e s) = next_id s"
  by (simp_all add: push_def record_ev_def)

lemmas admit_defs = inv_admit_def ids_ok_def blocked_def list_all_iff

lemma inv_admit_Fire:
  assumes "inv_admit cfg s" "stack s = Fire ev i # fs"
  shows "inv_admit cfg (fire ev i (s\<lparr>stack := fs\<rparr>))"
proof (cases "find (\<lambda>x. fst x = i) (listeners ev s)")
  case None
  then have f: "fire ev i (s\<lparr>stack := fs\<rparr>) = s\<lparr>stack := fs\<rparr>"
    by (cases ev) (simp_all add: fire_def)
  have n: "\<And>l. l \<in> set (listeners ev s) \<Longrightarrow> fst l \<noteq> i"
    using None by (auto simp: find_None_iff)
  show ?thesis unfolding f using assms n by (cases ev) (auto simp: admit_defs)
next
  case (Some l0)
  then have l0: "l0 \<in> set (listeners ev s)" "fst l0 = i"
    using find_id_Some by metis+
  show ?thesis
  proof (cases ev)
    case Free
    have dist: "distinct (map fst (listeners_free s))" using assms(1) by (simp add: admit_defs)
    have m: "\<And>l. l \<in> set (remove1 l0 (listeners_free s))
               \<longleftrightarrow> l \<in> set (listeners_free s) \<and> fst l \<noteq> i"
      using remove1_distinct_mem [OF dist] l0 Free by simp
    have f: "fire ev i (s\<lparr>stack := fs\<rparr>)
        = push [snd l0] (s\<lparr>stack := fs, listeners_free := remove1 l0 (listeners_free s)\<rparr>)"
      using Some Free by (simp add: fire_def)
    show ?thesis unfolding f using assms dist m Free
      by (auto simp: admit_defs distinct_remove1_fst)
  next
    case Empty
    have dist: "distinct (map fst (listeners_empty s))" using assms(1) by (simp add: admit_defs)
    have m: "\<And>l. l \<in> set (remove1 l0 (listeners_empty s))
               \<longleftrightarrow> l \<in> set (listeners_empty s) \<and> fst l \<noteq> i"
      using remove1_distinct_mem [OF dist] l0 Empty by simp
    have f: "fire ev i (s\<lparr>stack := fs\<rparr>)
        = push [snd l0] (s\<lparr>stack := fs, listeners_empty := remove1 l0 (listeners_empty s)\<rparr>)"
      using Some Empty by (simp add: fire_def)
    show ?thesis unfolding f using assms dist m Empty
      by (auto simp: admit_defs distinct_remove1_fst)
  qed
qed

lemma inv_admit_exec:
  assumes "inv_admit cfg s" "stack s = f # fs"
  shows "inv_admit cfg (exec cfg f (s\<lparr>stack := fs\<rparr>))"
proof (cases f)
  case (Fire ev i)
  then show ?thesis using inv_admit_Fire [OF assms(1)] assms(2) by simp
qed (use assms in \<open>auto simp: admit_defs stage_defs Let_def less_Suc_eq image_iff
       split: variant.splits option.splits list.splits prod.splits if_splits\<close>)

lemma inv_admit_simps [simp]:
  "inv_admit cfg (record_ev e s) = inv_admit cfg s"
  "inv_admit cfg (s\<lparr>inflight := xs\<rparr>) = inv_admit cfg s"
  "inv_admit cfg (s\<lparr>flushing := n\<rparr>) = inv_admit cfg s"
  "inv_admit cfg (s\<lparr>host_paused := b\<rparr>) = inv_admit cfg s"
  "inv_admit cfg (s\<lparr>host_held := h\<rparr>) = inv_admit cfg s"
  "inv_admit cfg (s\<lparr>host_finished := b\<rparr>) = inv_admit cfg s"
  by (simp_all add: admit_defs)

lemma inv_admit_push: "inv_admit cfg s \<Longrightarrow> inv_admit cfg (push fs s)"
  by (auto simp: admit_defs)

lemma inv_admit_step:
  assumes "inv_admit cfg s" "step cfg a s = Some s'"
  shows "inv_admit cfg s'"
proof (cases a)
  case Tau
  then show ?thesis using assms inv_admit_exec by (auto split: list.splits)
next
  case Read
  then show ?thesis using assms
    by (cases "host_held s") (auto simp: host_read_def inv_admit_push split: if_splits)
qed (use assms in \<open>auto simp: inv_admit_push host_finish_def split: if_splits\<close>)

subsection \<open>What the invariants give\<close>

lemma inv_all_init:
  "inv_pending cfg init \<and> inv_listeners init \<and> inv_error init \<and> inv_transform cfg init
   \<and> inv_end cfg init \<and> inv_end_exact cfg init \<and> inv_order init \<and> inv_writable cfg init
   \<and> inv_finish init \<and> inv_admit cfg init"
  by (auto simp: inv_pending_def inv_listeners_def inv_error_def inv_transform_def inv_end_def
      inv_end_exact_def inv_order_def inv_writable_def inv_finish_def admit_defs honoured_def
      init_def held_def waiting_def kept_def log_defs split: variant.splits)

lemma inv_all_run:
  assumes "run cfg as init = Some s"
  shows "inv_pending cfg s \<and> inv_listeners s \<and> inv_error s \<and> inv_transform cfg s
       \<and> inv_end cfg s \<and> inv_end_exact cfg s \<and> inv_order s \<and> inv_writable cfg s
       \<and> inv_finish s \<and> inv_admit cfg s"
  using inv_all_init _ assms
proof (rule run_invariant)
  fix a s s'
  assume i: "inv_pending cfg s \<and> inv_listeners s \<and> inv_error s \<and> inv_transform cfg s
       \<and> inv_end cfg s \<and> inv_end_exact cfg s \<and> inv_order s \<and> inv_writable cfg s
       \<and> inv_finish s \<and> inv_admit cfg s"
    and st: "step cfg a s = Some s'"
  have "inv_pending cfg s'" using i st inv_pending_step by blast
  moreover have "inv_listeners s'" using i st inv_listeners_step by blast
  moreover have "inv_error s'" using i st inv_error_step by blast
  moreover have "inv_transform cfg s'" using i st inv_transform_step by blast
  moreover have "inv_end cfg s'" using i st inv_end_step by blast
  moreover have "inv_end_exact cfg s'" using i st inv_end_exact_step by blast
  moreover have "inv_order s'" using i st inv_order_step by blast
  moreover have "inv_writable cfg s'" using i st inv_writable_step by blast
  moreover have "inv_finish s'" using i st inv_finish_step by blast
  moreover have "inv_admit cfg s'" using i st inv_admit_step by blast
  ultimately show "inv_pending cfg s' \<and> inv_listeners s' \<and> inv_error s'
       \<and> inv_transform cfg s' \<and> inv_end cfg s' \<and> inv_end_exact cfg s' \<and> inv_order s'
       \<and> inv_writable cfg s' \<and> inv_finish s' \<and> inv_admit cfg s'"
    by simp
qed

lemma flush_only_in_end:
  assumes "step cfg a s = Some s'"
    and "count_list (log s') EvFlush \<noteq> count_list (log s) EvFlush"
  shows "host_buffer s = [] \<and> pending s = 0 \<and> \<not> errorEmitted s
       \<and> count_list (log s') EvFlush = count_list (log s) EvFlush + 1"
proof (cases a)
  case Tau
  then obtain f fs where st: "stack s = f # fs" and s': "s' = exec cfg f (s\<lparr>stack := fs\<rparr>)"
    using assms(1) by (auto split: list.splits)
  show ?thesis using assms(2) unfolding s'
    by (cases f)
      (auto simp: stage_defs Let_def
        split: variant.splits option.splits list.splits prod.splits if_splits)
qed (use assms in \<open>auto simp: host_read_def host_finish_def split: if_splits option.splits\<close>)

lemma host_end_only_when_drained:
  assumes "step cfg a s = Some s'" and "variant cfg = Transform"
    and "\<not> list_ex sink_only (stack s)"
    and "count_list (log s') EvEnd \<noteq> count_list (log s) EvEnd"
  shows "pending s = 0 \<and> \<not> errorEmitted s
       \<and> count_list (log s') EvEnd = count_list (log s) EvEnd + 1"
proof (cases a)
  case Tau
  then obtain f fs where st: "stack s = f # fs" and s': "s' = exec cfg f (s\<lparr>stack := fs\<rparr>)"
    using assms(1) by (auto split: list.splits)
  show ?thesis using assms(2,3,4) st unfolding s'
    by (cases f)
      (auto simp: stage_defs Let_def
        split: option.splits list.splits prod.splits if_splits)
qed (use assms in \<open>auto simp: host_read_def host_finish_def split: if_splits option.splits\<close>)


lemma error_stays:
  assumes "step cfg a s = Some s'" and "errorEmitted s"
  shows "errorEmitted s'"
proof (cases a)
  case Tau
  then obtain f fs where st: "stack s = f # fs" and s': "s' = exec cfg f (s\<lparr>stack := fs\<rparr>)"
    using assms(1) by (auto split: list.splits)
  show ?thesis using assms(2) unfolding s'
    by (cases f)
      (auto simp: stage_defs Let_def
        split: variant.splits option.splits list.splits prod.splits if_splits)
qed (use assms in \<open>auto simp: host_read_def host_finish_def split: if_splits option.splits\<close>)

lemma drained:
  assumes "inv_pending cfg s" and "pending s = 0"
  shows "inflight s = [] \<and> length (dispatched (log s)) = length (completed (log s))"
proof -
  have "int (length (inflight s)) + int (size (filter_mset is_done (held s))) = 0"
    and "int (length (dispatched (log s))) - int (length (completed (log s))) = 0"
    using assms by (auto simp: inv_pending_def)
  then have "length (inflight s) = 0"
    and "length (dispatched (log s)) = length (completed (log s))"
    by linarith+
  then show ?thesis by simp
qed

lemma no_flush_after_error:
  assumes "step cfg a s = Some s'" and "errorEmitted s"
  shows "count_list (log s') EvFlush = count_list (log s) EvFlush"
  using flush_only_in_end [OF assms(1)] assms(2) by blast

lemma no_host_end_after_error:
  assumes "step cfg a s = Some s'" and "errorEmitted s" and "variant cfg = Transform"
    and "\<not> list_ex sink_only (stack s)"
  shows "count_list (log s') EvEnd = count_list (log s) EvEnd"
  using host_end_only_when_drained [OF assms(1,3,4)] assms(2) by blast

lemma writes_in_none: "\<forall>f\<in>set fs. \<not> is_call_write f \<Longrightarrow> writes_in fs = []"
proof (induction fs)
  case Nil
  then show ?case by simp
next
  case (Cons f fs)
  then show ?case by (cases f) auto
qed

lemma is_call_end_not_write: "is_call_end f \<Longrightarrow> \<not> is_call_write f"
  by (cases f) auto

lemma free_slot_nothing_waits:
  assumes "inv_admit cfg s" and "stack s = []" and "pending s < concurrency cfg"
  shows "waiting s = []"
proof -
  have "\<forall>f\<in>set (map snd (listeners_free s)). \<not> is_call_write f"
    using assms by (auto simp: admit_defs)
  moreover have "\<forall>f\<in>set (map snd (listeners_empty s)). \<not> is_call_write f"
    using assms(1) by (auto simp: admit_defs is_call_end_not_write)
  ultimately show ?thesis using assms(2) by (simp add: waiting_def writes_in_none)
qed

lemma kept_empty: "host_held s = None \<Longrightarrow> kept s = []"
  by (simp add: kept_def)

lemma is_call_not_write_cb: "is_call f \<Longrightarrow> \<not> is_write_cb f"
  by (cases f) auto

lemma quiet_no_write_cb:
  assumes "inv_listeners s" and "stack s = []"
  shows "size (filter_mset is_write_cb (held s)) = 0"
proof -
  have "filter_mset is_write_cb (held s) = {#}"
    using assms
    by (auto simp: held_def inv_listeners_def list_all_iff filter_mset_eq_mempty_iff
        is_call_not_write_cb)
  then show ?thesis by (simp only: size_empty)
qed

lemma free_slot_all_dispatched:
  assumes "inv_admit cfg s" and "inv_order s" and "inv_listeners s" and "stack s = []"
    and "pending s < concurrency cfg" and "host_held s = None"
  shows "host_buffer s = [] \<and> dispatched (log s) = written (log s)"
proof -
  have w: "waiting s = []" using assms(1,4,5) by (rule free_slot_nothing_waits)
  have "\<not> host_writing s"
    using assms(2) w kept_empty [OF assms(6)] quiet_no_write_cb [OF assms(3,4)]
    by (auto simp: inv_order_def split: if_splits)
  then show ?thesis using assms(2) w kept_empty [OF assms(6)] by (auto simp: inv_order_def)
qed

lemma finish_all_dispatched:
  assumes "inv_order s" and "step cfg Finish s = Some s'"
  shows "dispatched (log s) = written (log s)"
  using assms by (auto simp: inv_order_def host_can_finish_def kept_def
      split: if_splits option.splits)

section \<open>The drained stage\<close>

lemma paired_fires: "paired (map (\<lambda>l. Fire ev (fst l)) ls @ fs) = paired fs"
  by (induction ls) auto

lemma paired_tl: "paired (f # fs) \<Longrightarrow> f \<noteq> Write_cb \<Longrightarrow> paired fs"
  by (cases f) auto

lemma paired_Write_cb: "paired (Write_cb # fs) \<Longrightarrow> \<exists>gs. fs = Check_empty # gs \<and> paired gs"
  by (cases fs rule: paired.cases) auto

lemma paired_Cons: "paired fs \<Longrightarrow> f \<noteq> Write_cb \<Longrightarrow> paired (f # fs)"
  by (cases f) auto

lemma asynchronousD:
  "asynchronous cfg \<Longrightarrow> work cfg it = None" "asynchronous cfg \<Longrightarrow> 1 \<le> concurrency cfg"
  by (cases it; simp add: asynchronous_def)+

lemma writable_write_async:
  "work cfg it = None \<Longrightarrow>
   writable_write cfg it s =
     (if pending s \<ge> concurrency cfg then once Free (Call_write it) s
      else push [Write_cb, Check_empty]
             ((record_ev (EvDispatch it) (s\<lparr>pending := pending s + 1\<rparr>))
                \<lparr>inflight := inflight s @ [it]\<rparr>))"
  by (simp add: writable_write_def call_work_def Let_def)

lemma transform_transform_async:
  "work cfg it = None \<Longrightarrow>
   transform_transform cfg it s =
     (if pending s \<ge> concurrency cfg then once Free (Call_write it) s
      else push [Write_cb]
             ((record_ev (EvDispatch it) (s\<lparr>pending := pending s + 1\<rparr>))
                \<lparr>inflight := inflight s @ [it]\<rparr>))"
  by (simp add: transform_transform_def call_work_def Let_def)

lemma stage_update_fields [simp]:
  "stack (s\<lparr>inflight := xs\<rparr>) = stack s" "stack (s\<lparr>pending := n\<rparr>) = stack s"
  by simp_all

lemmas live_defs = inv_live_def ids_ok_def covered_free_def covered_empty_def busy_def
  write_coming_def list_all_iff list_ex_iff

lemmas live_defs' = inv_live_def ids_ok_def covered_free_def covered_empty_def
  list_all_iff list_ex_iff

lemma live_Call_write:
  assumes "inv_live cfg s" "asynchronous cfg" "0 \<le> pending s" "stack s = Call_write it # fs"
  shows "inv_live cfg (exec cfg (Call_write it) (s\<lparr>stack := fs\<rparr>))"
proof -
  note c = asynchronousD [OF assms(2)]
  show ?thesis
  proof (cases "variant cfg")
    case Sink
    then have p: "paired fs" using assms(1,4) by (auto simp: inv_live_def)
    show ?thesis
    proof (cases "pending s \<ge> concurrency cfg")
      case True
      then have "0 < pending s" using c(2) by simp
      then show ?thesis using assms(1,4) True c(1) p Sink
        by (auto simp: inv_live_def writable_write_async ids_ok_def
            covered_free_def covered_empty_def busy_def list_all_iff less_Suc_eq)
    next
      case False
      then show ?thesis using assms(1,3,4) c(1) p Sink
        by (auto simp: inv_live_def writable_write_async ids_ok_def
            covered_free_def covered_empty_def busy_def list_all_iff)
    qed
  next
    case Transform
    show ?thesis
    proof (cases "pending s \<ge> concurrency cfg")
      case True
      then have "0 < pending s" using c(2) by simp
      then show ?thesis using assms(1,4) True c(1) Transform
        by (auto simp: inv_live_def transform_transform_async ids_ok_def
            covered_free_def covered_empty_def busy_def list_all_iff less_Suc_eq)
    next
      case False
      then show ?thesis using assms(1,3,4) c(1) Transform
        by (auto simp: inv_live_def transform_transform_async ids_ok_def
            covered_free_def covered_empty_def busy_def list_all_iff)
    qed
  qed
qed

lemma busy_simps [simp]:
  "busy (record_ev e s) = busy s"
  "busy (s\<lparr>errorEmitted := b\<rparr>) = busy s"
  "busy (s\<lparr>flushing := n\<rparr>) = busy s"
  "busy (s\<lparr>inflight := xs\<rparr>) = busy s"
  "busy (s\<lparr>host_paused := b\<rparr>) = busy s"
  "busy (s\<lparr>host_ending := b\<rparr>) = busy s"
  "busy (s\<lparr>host_finished := b\<rparr>) = busy s"
  by (simp_all add: busy_def write_coming_def)

lemma busy_once: "busy s \<Longrightarrow> busy (once ev f s)"
  by (cases ev) (auto simp: busy_def write_coming_def list_ex_iff)

lemma busy_push: "busy s \<Longrightarrow> busy (push fs s)"
  by (auto simp: busy_def write_coming_def list_ex_iff)

lemma live_simps [simp]:
  "inv_live cfg (record_ev e s) = inv_live cfg s"
  "inv_live cfg (s\<lparr>errorEmitted := b\<rparr>) = inv_live cfg s"
  "inv_live cfg (s\<lparr>flushing := n\<rparr>) = inv_live cfg s"
  "inv_live cfg (s\<lparr>inflight := xs\<rparr>) = inv_live cfg s"
  "inv_live cfg (s\<lparr>host_paused := b\<rparr>) = inv_live cfg s"
  "inv_live cfg (s\<lparr>host_ending := b\<rparr>) = inv_live cfg s"
  "inv_live cfg (s\<lparr>host_finished := b\<rparr>) = inv_live cfg s"
  by (simp_all add: live_defs')

lemma busy_pop_Call_end:
  "stack s = Call_end c e cb # fs \<Longrightarrow> busy (s\<lparr>stack := fs\<rparr>) = busy s"
  by (auto simp: busy_def write_coming_def list_ex_iff)

lemma live_pop_Call_end:
  assumes "inv_live cfg s" "stack s = Call_end c e cb # fs"
  shows "inv_live cfg (s\<lparr>stack := fs\<rparr>)"
  using assms busy_pop_Call_end [OF assms(2)] by (auto simp: live_defs')

lemma trailing_pop_Call_end:
  assumes "inv_live cfg s" "stack s = Call_end c e cb # fs"
  shows "list_ex is_once_free_end fs \<longrightarrow> busy (s\<lparr>stack := fs\<rparr>)"
    and "\<not> list_ex is_done fs"
  using assms busy_pop_Call_end [OF assms(2)] by (auto simp: inv_live_def list_ex_iff)

lemma live_once_Empty:
  assumes "inv_live cfg s" "variant cfg = Sink" "host_buffer s \<noteq> []" "is_call_end f"
  shows "inv_live cfg (once Empty f s)"
  using assms busy_once [of s Empty f] by (auto simp: live_defs' less_Suc_eq)

lemma live_once_Free:
  assumes "inv_live cfg s" "busy s"
  shows "inv_live cfg (once Free f s)"
  using assms busy_once [of s Free f] by (auto simp: live_defs' less_Suc_eq)

lemma live_push_trailing:
  assumes "inv_live cfg s" "\<not> list_ex is_done (stack s)"
  shows "inv_live cfg (push [Host_write it, Once_free_end cb] s)"
proof -
  have "ids_ok (push [Host_write it, Once_free_end cb] s)"
    using assms(1) by (simp add: inv_live_def ids_ok_def)
  moreover have "variant cfg = Sink \<longrightarrow> paired (stack (push [Host_write it, Once_free_end cb] s))"
    using assms(1) by (simp add: inv_live_def)
  moreover have "list_all (covered_free (push [Host_write it, Once_free_end cb] s))
      (listeners_free (push [Host_write it, Once_free_end cb] s))"
    using assms(1) busy_push [of s "[Host_write it, Once_free_end cb]"]
    by (auto simp: inv_live_def covered_free_def list_all_iff)
  moreover have "list_all (covered_empty (push [Host_write it, Once_free_end cb] s))
      (listeners_empty (push [Host_write it, Once_free_end cb] s))"
    using assms(1) by (auto simp: inv_live_def covered_empty_def list_all_iff)
  ultimately show ?thesis using assms
    by (simp add: inv_live_def list_ex_iff)
qed

lemma live_push_Flush_done:
  assumes "inv_live cfg s" "\<not> list_ex is_done (stack s)"
    and "list_ex is_once_free_end (stack s) \<longrightarrow> busy s"
  shows "inv_live cfg (push [Flush_done e] s)"
proof -
  have "ids_ok (push [Flush_done e] s)"
    using assms(1) by (simp add: inv_live_def ids_ok_def)
  moreover have "variant cfg = Sink \<longrightarrow> paired (stack (push [Flush_done e] s))"
    using assms(1) by (simp add: inv_live_def)
  moreover have "list_all (covered_free (push [Flush_done e] s))
      (listeners_free (push [Flush_done e] s))"
    using assms(1) busy_push [of s "[Flush_done e]"]
    by (auto simp: inv_live_def covered_free_def list_all_iff)
  moreover have "list_all (covered_empty (push [Flush_done e] s))
      (listeners_empty (push [Flush_done e] s))"
    using assms(1) by (auto simp: inv_live_def covered_empty_def list_all_iff)
  moreover have "list_ex is_once_free_end (stack (push [Flush_done e] s))
      \<longrightarrow> busy (push [Flush_done e] s) \<or> top_host_write (stack (push [Flush_done e] s))"
    using assms(3) busy_push [of s "[Flush_done e]"] by (auto simp: list_ex_iff)
  ultimately show ?thesis using assms
    by (simp add: inv_live_def list_ex_iff)
qed

lemma live_writable_end:
  assumes "inv_live cfg s" "variant cfg = Sink" "0 \<le> pending s"
    and "list_ex is_once_free_end (stack s) \<longrightarrow> busy s" "\<not> list_ex is_done (stack s)"
  shows "inv_live cfg (writable_end cfg c e cb s)"
proof (cases "host_buffer s \<noteq> []")
  case True
  then show ?thesis using assms(1,2) by (simp add: writable_end_def live_once_Empty)
next
  case False
  note buf = this
  show ?thesis
  proof (cases "pending s \<noteq> 0")
    case True
    then have "busy s" using assms(3) by (simp add: busy_def)
    then show ?thesis using assms(1) buf True by (simp add: writable_end_def live_once_Free)
  next
    case False
    obtain c' e' cb' where a: "end_args c e cb = (c', e', cb')" by (cases "end_args c e cb")
    show ?thesis
    proof (cases "truthy c'")
      case True
      then show ?thesis using assms(1,5) buf False a
        by (simp add: writable_end_def live_push_trailing)
    next
      case False
      note nochunk = this
      show ?thesis
      proof (cases "errorEmitted s")
        case True
        then show ?thesis using assms(1) buf \<open>\<not> pending s \<noteq> 0\<close> a nochunk
          by (simp add: writable_end_def)
      next
        case False
        then show ?thesis using assms(1,4,5) buf \<open>\<not> pending s \<noteq> 0\<close> a nochunk
          by (cases "flush cfg")
            (simp_all add: writable_end_def call_flush_def Let_def live_push_Flush_done)
      qed
    qed
  qed
qed

lemma live_transform_end:
  assumes "inv_live cfg s" "0 \<le> pending s" "\<not> list_ex is_done (stack s)"
  shows "inv_live cfg (transform_end c e cb s)"
proof (cases "pending s \<noteq> 0")
  case True
  then have "busy s" using assms(2) by (simp add: busy_def)
  then show ?thesis using assms(1) True by (simp add: transform_end_def live_once_Free)
next
  case False
  obtain c' e' cb' where a: "end_args c e cb = (c', e', cb')" by (cases "end_args c e cb")
  show ?thesis
  proof (cases "truthy c'")
    case True
    then show ?thesis using assms(1,3) False a
      by (simp add: transform_end_def live_push_trailing)
  next
    case False
    then show ?thesis using assms(1) \<open>\<not> pending s \<noteq> 0\<close> a
      by (simp add: transform_end_def host_end_def Let_def)
  qed
qed

lemma live_Call_end:
  assumes "inv_live cfg s" "0 \<le> pending s" "stack s = Call_end c e cb # fs"
  shows "inv_live cfg (exec cfg (Call_end c e cb) (s\<lparr>stack := fs\<rparr>))"
proof -
  let ?s = "s\<lparr>stack := fs\<rparr>"
  have l: "inv_live cfg ?s" using assms(1,3) by (rule live_pop_Call_end)
  have t: "list_ex is_once_free_end (stack ?s) \<longrightarrow> busy ?s" "\<not> list_ex is_done (stack ?s)"
    using trailing_pop_Call_end [OF assms(1,3)] by simp_all
  have p: "0 \<le> pending ?s" using assms(2) by simp
  show ?thesis
  proof (cases "variant cfg")
    case Sink
    then show ?thesis using live_writable_end [OF l Sink p t] by simp
  next
    case Transform
    then show ?thesis using live_transform_end [OF l p t(2)] by simp
  qed
qed

lemma live_Fail_if:
  assumes "inv_live cfg s" "stack s = Fail_if err # fs"
  shows "inv_live cfg (exec cfg (Fail_if err) (s\<lparr>stack := fs\<rparr>))"
proof -
  have b: "busy (s\<lparr>stack := fs\<rparr>) = busy s"
    using assms(2) by (auto simp: busy_def write_coming_def list_ex_iff)
  have "inv_live cfg (s\<lparr>stack := fs\<rparr>)"
    using assms b by (auto simp: live_defs')
  then show ?thesis by (simp add: fail_if_def fail_def)
qed

lemma live_Flush_done:
  assumes "inv_live cfg s" "stack s = Flush_done err # fs"
  shows "inv_live cfg (exec cfg (Flush_done err) (s\<lparr>stack := fs\<rparr>))"
proof -
  have b: "busy (s\<lparr>stack := fs\<rparr>) = busy s"
    using assms(2) by (auto simp: busy_def write_coming_def list_ex_iff)
  have "inv_live cfg (s\<lparr>stack := fs\<rparr>)"
    using assms b by (auto simp: live_defs')
  then show ?thesis by (simp add: flush_done_def fail_def host_end_def Let_def)
qed

lemma live_Work_done:
  assumes "inv_live cfg s" "stack s = Work_done it err data # fs"
  shows "inv_live cfg (exec cfg (Work_done it err data) (s\<lparr>stack := fs\<rparr>))"
proof -
  have fs: "fs = []" using assms by (auto simp: inv_live_def)
  show ?thesis using assms fs
    by (cases "variant cfg")
      (auto simp: live_defs writable_work_done_def transform_work_done_def fail_def emit_def
        Let_def paired_fires image_iff)
qed

lemma live_Write_cb:
  assumes "inv_live cfg s" "stack s = Write_cb # fs"
  shows "inv_live cfg (exec cfg Write_cb (s\<lparr>stack := fs\<rparr>))"
proof (cases "variant cfg")
  case Sink
  then obtain gs where fs: "fs = Check_empty # gs" and p: "paired gs"
    using assms paired_Write_cb by (auto simp: inv_live_def)
  show ?thesis using assms fs p Sink
    by (auto simp: live_defs host_onwrite_def host_call_def split: list.splits)
next
  case Transform
  then show ?thesis using assms
    by (auto simp: live_defs host_onwrite_def host_call_def split: list.splits)
qed

lemma busy_pop:
  assumes "stack s = f # fs" "\<not> is_call_write f" "\<And>i. f \<noteq> Fire Free i"
  shows "busy (s\<lparr>stack := fs\<rparr>) = busy s"
  using assms by (auto simp: busy_def write_coming_def list_ex_iff)

lemma live_Check_empty:
  assumes "inv_live cfg s" "stack s = Check_empty # fs"
  shows "inv_live cfg (exec cfg Check_empty (s\<lparr>stack := fs\<rparr>))"
proof -
  let ?s1 = "s\<lparr>stack := fs\<rparr>"
  have b: "busy ?s1 = busy s" using assms(2) by (rule busy_pop) simp_all
  show ?thesis
  proof (cases "host_buffer s = []")
    case False
    then have e: "exec cfg Check_empty ?s1 = ?s1" by (simp add: check_empty_def)
    show ?thesis unfolding e using assms b False by (auto simp: live_defs')
  next
    case True
    let ?s2 = "push (emit Empty ?s1) ?s1"
    have e: "exec cfg Check_empty ?s1 = ?s2" using True by (simp add: check_empty_def)
    have b2: "busy s \<Longrightarrow> busy ?s2" using b busy_push [of ?s1 "emit Empty ?s1"] by simp
    show ?thesis unfolding e using assms b2
      by (auto simp: live_defs' emit_def paired_fires image_iff)
  qed
qed

lemma live_Once_free_end:
  assumes "inv_live cfg s" "stack s = Once_free_end cb # fs"
  shows "inv_live cfg (exec cfg (Once_free_end cb) (s\<lparr>stack := fs\<rparr>))"
proof -
  let ?s1 = "s\<lparr>stack := fs\<rparr>"
  have b: "busy ?s1 = busy s" using assms(2) by (rule busy_pop) simp_all
  have bs: "busy s" using assms by (auto simp: inv_live_def)
  have "inv_live cfg ?s1" using assms b by (auto simp: live_defs')
  then show ?thesis using b bs by (simp add: once_free_end_def live_once_Free)
qed

lemma busy_fire_None:
  assumes "stack s = Fire ev i # fs" "find (\<lambda>x. fst x = i) (listeners ev s) = None"
  shows "busy (s\<lparr>stack := fs\<rparr>) = busy s"
  using assms by (cases ev) (auto simp: busy_def write_coming_def list_ex_iff find_None_iff)

lemma live_Fire_None:
  assumes "inv_live cfg s" "stack s = Fire ev i # fs"
    and "find (\<lambda>x. fst x = i) (listeners ev s) = None"
  shows "inv_live cfg (fire ev i (s\<lparr>stack := fs\<rparr>))"
proof -
  have f: "fire ev i (s\<lparr>stack := fs\<rparr>) = s\<lparr>stack := fs\<rparr>"
    using assms(3) by (cases ev) (simp_all add: fire_def)
  have n: "\<And>l. l \<in> set (listeners ev s) \<Longrightarrow> fst l \<noteq> i"
    using assms(3) by (auto simp: find_None_iff)
  show ?thesis unfolding f
    using assms(1,2) n busy_fire_None [OF assms(2,3)]
    by (cases ev) (auto simp: live_defs')
qed

lemma busy_fire_Free:
  assumes "busy s" "stack s = Fire Free i # fs" "distinct (map fst (listeners_free s))"
    and "l0 \<in> set (listeners_free s)" "fst l0 = i"
  shows "busy (push [snd l0] (s\<lparr>stack := fs, listeners_free := remove1 l0 (listeners_free s)\<rparr>))"
    (is "busy ?s'")
proof -
  have m: "\<And>l. l \<in> set (remove1 l0 (listeners_free s))
             \<longleftrightarrow> l \<in> set (listeners_free s) \<and> fst l \<noteq> fst l0"
    using assms(3,4) by (rule remove1_distinct_mem)
  consider (p) "0 < pending s"
    | (a) f where "f \<in> set (stack s)" "is_call_write f"
    | (b) l where "l \<in> set (listeners_free s)" "is_call_write (snd l)"
        "Fire Free (fst l) \<in> set (stack s)"
    | (h) "host_held s \<noteq> None"
    using assms(1) by (auto simp: busy_def write_coming_def list_ex_iff)
  then show ?thesis
  proof cases
    case p
    then show ?thesis by (simp add: busy_def)
  next
    case h
    then show ?thesis by (simp add: busy_def)
  next
    case a
    then have "f \<in> set fs" using assms(2) by auto
    then have "f \<in> set (stack ?s')" by simp
    then show ?thesis using a(2) by (auto simp: busy_def write_coming_def list_ex_iff)
  next
    case b
    show ?thesis
    proof (cases "fst l = i")
      case True
      then have "l = l0" using assms(3,4,5) b(1) distinct_other_id by metis
      then have "is_call_write (snd l0)" using b(2) by simp
      moreover have "snd l0 \<in> set (stack ?s')" by simp
      ultimately show ?thesis unfolding busy_def write_coming_def list_ex_iff by blast
    next
      case False
      then have "Fire Free (fst l) \<in> set fs" using b(3) assms(2) by auto
      then have "Fire Free (fst l) \<in> set (stack ?s')" by simp
      moreover have "l \<in> set (listeners_free ?s')" using m b(1) False assms(5) by simp
      ultimately show ?thesis using b(2)
        unfolding busy_def write_coming_def list_ex_iff by blast
    qed
  qed
qed

lemma live_Fire_Free:
  assumes "inv_live cfg s" "inv_listeners s" "stack s = Fire Free i # fs"
    and "find (\<lambda>x. fst x = i) (listeners_free s) = Some l0"
  shows "inv_live cfg (fire Free i (s\<lparr>stack := fs\<rparr>))"
proof -
  let ?s' = "push [snd l0] (s\<lparr>stack := fs, listeners_free := remove1 l0 (listeners_free s)\<rparr>)"
  have f: "fire Free i (s\<lparr>stack := fs\<rparr>) = ?s'"
    using assms(4) by (simp add: fire_def)
  have l0: "l0 \<in> set (listeners_free s)" "fst l0 = i"
    using find_id_Some [OF assms(4)] by simp_all
  have dist: "distinct (map fst (listeners_free s))" using assms(1) by (simp add: live_defs')
  have m: "\<And>l. l \<in> set (remove1 l0 (listeners_free s))
             \<longleftrightarrow> l \<in> set (listeners_free s) \<and> fst l \<noteq> i"
    using remove1_distinct_mem [OF dist l0(1)] l0(2) by simp
  have call: "is_call (snd l0)" using assms(2) l0(1) by (auto simp: inv_listeners_def list_all_iff)
  then have nc: "snd l0 \<noteq> Write_cb" "\<not> is_done (snd l0)" "\<not> is_write_cb (snd l0)"
    "\<not> is_once_free_end (snd l0)" "snd l0 \<noteq> Check_empty" "\<And>ev j. snd l0 \<noteq> Fire ev j"
    by (cases "snd l0"; simp)+
  have b: "busy s \<Longrightarrow> busy ?s'" using busy_fire_Free [OF _ assms(3) dist l0] by simp
  have st: "stack ?s' = snd l0 # fs" "listeners_free ?s' = remove1 l0 (listeners_free s)"
    "listeners_empty ?s' = listeners_empty s" "pending ?s' = pending s"
    "host_buffer ?s' = host_buffer s" "next_id ?s' = next_id s"
    "host_held ?s' = host_held s"
    by simp_all
  have 1: "ids_ok ?s'"
    using assms(1) unfolding ids_ok_def inv_live_def st list_all_iff
    by (auto simp: distinct_remove1_fst m)
  have 2: "list_all (\<lambda>l. is_call_end (snd l)) (listeners_empty ?s')"
    using assms(1) unfolding st by (simp add: inv_live_def)
  have 3: "variant cfg = Sink \<longrightarrow> paired (stack ?s')"
    unfolding st using assms(1,3) nc(1) by (auto simp: inv_live_def paired_Cons)
  have 9: "variant cfg = Transform \<longrightarrow> listeners_empty ?s' = []"
    unfolding st using assms(1) by (simp add: inv_live_def)
  have nd: "\<not> list_ex is_done fs" "list_ex is_write_cb fs \<longrightarrow> 0 < pending s"
    "list_ex is_once_free_end fs \<longrightarrow> busy s"
    using assms(1,3) by (auto simp: inv_live_def list_ex_iff)
  have 4: "list_ex is_done (stack ?s') \<longrightarrow> length (stack ?s') = 1"
    unfolding st using nd(1) nc(2) by simp
  have 5: "list_ex is_write_cb (stack ?s') \<longrightarrow> 0 < pending ?s'"
    unfolding st using nd(2) nc(3) by simp
  have 6: "list_all (covered_free ?s') (listeners_free ?s')"
    unfolding list_all_iff
  proof
    fix l assume "l \<in> set (listeners_free ?s')"
    then have l: "l \<in> set (listeners_free s)" "fst l \<noteq> i" using m by simp_all
    then have "covered_free s l" using assms(1) by (simp add: inv_live_def list_all_iff)
    then consider "busy s" | "Fire Free (fst l) \<in> set (stack s)"
      by (auto simp: covered_free_def)
    then show "covered_free ?s' l"
    proof cases
      case 1
      then show ?thesis using b by (simp add: covered_free_def)
    next
      case 2
      then have "Fire Free (fst l) \<in> set fs" using assms(3) l(2) by auto
      then show ?thesis unfolding covered_free_def st by simp
    qed
  qed
  have 7: "list_all (covered_empty ?s') (listeners_empty ?s')"
    unfolding list_all_iff
  proof
    fix l assume "l \<in> set (listeners_empty ?s')"
    then have "covered_empty s l" using assms(1) by (simp add: inv_live_def list_all_iff)
    then show "covered_empty ?s' l"
      unfolding covered_empty_def st using assms(3) by auto
  qed
  have 8: "list_ex is_once_free_end (stack ?s') \<longrightarrow> busy ?s' \<or> top_host_write (stack ?s')"
    unfolding st using nd(3) b nc(4) by simp
  show ?thesis unfolding f inv_live_def using 1 2 3 4 5 6 7 8 9 by blast
qed

lemma live_Fire_Empty:
  assumes "inv_live cfg s" "stack s = Fire Empty i # fs"
    and "find (\<lambda>x. fst x = i) (listeners_empty s) = Some l0"
  shows "inv_live cfg (fire Empty i (s\<lparr>stack := fs\<rparr>))"
proof -
  let ?s' = "push [snd l0] (s\<lparr>stack := fs, listeners_empty := remove1 l0 (listeners_empty s)\<rparr>)"
  have f: "fire Empty i (s\<lparr>stack := fs\<rparr>) = ?s'"
    using assms(3) by (simp add: fire_def)
  have l0: "l0 \<in> set (listeners_empty s)" "fst l0 = i"
    using find_id_Some [OF assms(3)] by simp_all
  have dist: "distinct (map fst (listeners_empty s))" using assms(1) by (simp add: live_defs')
  have m: "\<And>l. l \<in> set (remove1 l0 (listeners_empty s))
             \<longleftrightarrow> l \<in> set (listeners_empty s) \<and> fst l \<noteq> i"
    using remove1_distinct_mem [OF dist l0(1)] l0(2) by simp
  have "is_call_end (snd l0)" using assms(1) l0(1) by (auto simp: inv_live_def list_all_iff)
  then have nc: "snd l0 \<noteq> Write_cb" "\<not> is_done (snd l0)" "\<not> is_write_cb (snd l0)"
    "\<not> is_once_free_end (snd l0)"
    by (cases "snd l0"; simp)+
  have st: "stack ?s' = snd l0 # fs" "listeners_free ?s' = listeners_free s"
    "listeners_empty ?s' = remove1 l0 (listeners_empty s)" "pending ?s' = pending s"
    "host_buffer ?s' = host_buffer s" "next_id ?s' = next_id s"
    "host_held ?s' = host_held s"
    by simp_all
  have b: "busy s \<Longrightarrow> busy ?s'"
    unfolding busy_def write_coming_def list_ex_iff st using assms(2) by auto
  have 1: "ids_ok ?s'"
    using assms(1) unfolding ids_ok_def inv_live_def st list_all_iff
    by (auto simp: distinct_remove1_fst m)
  have 2: "list_all (\<lambda>l. is_call_end (snd l)) (listeners_empty ?s')"
    using assms(1) unfolding st by (simp add: inv_live_def list_all_iff m)
  have 3: "variant cfg = Sink \<longrightarrow> paired (stack ?s')"
    unfolding st using assms(1,2) nc(1) by (auto simp: inv_live_def paired_Cons)
  have 9: "variant cfg = Transform \<longrightarrow> listeners_empty ?s' = []"
    using assms(1) l0(1) by (auto simp: inv_live_def)
  have nd: "\<not> list_ex is_done fs" "list_ex is_write_cb fs \<longrightarrow> 0 < pending s"
    "list_ex is_once_free_end fs \<longrightarrow> busy s"
    using assms(1,2) by (auto simp: inv_live_def list_ex_iff)
  have 4: "list_ex is_done (stack ?s') \<longrightarrow> length (stack ?s') = 1"
    unfolding st using nd(1) nc(2) by simp
  have 5: "list_ex is_write_cb (stack ?s') \<longrightarrow> 0 < pending ?s'"
    unfolding st using nd(2) nc(3) by simp
  have 6: "list_all (covered_free ?s') (listeners_free ?s')"
    unfolding list_all_iff
  proof
    fix l assume "l \<in> set (listeners_free ?s')"
    then have "covered_free s l" using assms(1) by (simp add: inv_live_def list_all_iff)
    then consider "busy s" | "Fire Free (fst l) \<in> set (stack s)"
      by (auto simp: covered_free_def)
    then show "covered_free ?s' l"
    proof cases
      case 1
      then show ?thesis using b by (simp add: covered_free_def)
    next
      case 2
      then have "Fire Free (fst l) \<in> set fs" using assms(2) by auto
      then show ?thesis unfolding covered_free_def st by simp
    qed
  qed
  have 7: "list_all (covered_empty ?s') (listeners_empty ?s')"
    unfolding list_all_iff
  proof
    fix l assume "l \<in> set (listeners_empty ?s')"
    then have l: "l \<in> set (listeners_empty s)" "fst l \<noteq> i" using m by simp_all
    then have "covered_empty s l" using assms(1) by (simp add: inv_live_def list_all_iff)
    then show "covered_empty ?s' l"
      unfolding covered_empty_def st using assms(2) l(2) by auto
  qed
  have 8: "list_ex is_once_free_end (stack ?s') \<longrightarrow> busy ?s' \<or> top_host_write (stack ?s')"
    unfolding st using nd(3) b nc(4) by simp
  show ?thesis unfolding f inv_live_def using 1 2 3 4 5 6 7 8 9 by blast
qed

lemma live_Fire:
  assumes "inv_live cfg s" "inv_listeners s" "stack s = Fire ev i # fs"
  shows "inv_live cfg (exec cfg (Fire ev i) (s\<lparr>stack := fs\<rparr>))"
proof (cases "find (\<lambda>x. fst x = i) (listeners ev s)")
  case None
  then show ?thesis using live_Fire_None [OF assms(1,3)] by simp
next
  case (Some l0)
  show ?thesis
  proof (cases ev)
    case Free
    then show ?thesis
      using live_Fire_Free [OF assms(1,2), of i fs l0] assms(3) Some by simp
  next
    case Empty
    then show ?thesis
      using live_Fire_Empty [OF assms(1), of i fs l0] assms(3) Some by simp
  qed
qed

lemma writes_in_nonempty: "writes_in fs \<noteq> [] \<Longrightarrow> \<exists>f\<in>set fs. is_call_write f"
proof (induction fs)
  case Nil
  then show ?case by simp
next
  case (Cons f fs)
  then show ?case by (cases f) auto
qed

lemma outstanding_busy:
  assumes "inv_live cfg s" "inv_order s" "inv_listeners s" "host_writing s"
  shows "busy s"
proof (cases "list_ex is_write_cb (stack s) \<or> host_held s \<noteq> None")
  case True
  then show ?thesis using assms(1) by (auto simp: inv_live_def busy_def)
next
  case False
  have nl: "\<And>l. l \<in> set (listeners_free s) \<union> set (listeners_empty s) \<Longrightarrow> \<not> is_write_cb (snd l)"
  proof -
    fix l assume "l \<in> set (listeners_free s) \<union> set (listeners_empty s)"
    then have "is_call (snd l)" using assms(3) by (auto simp: inv_listeners_def list_all_iff)
    then show "\<not> is_write_cb (snd l)" by (cases "snd l") auto
  qed
  have "filter_mset is_write_cb (held s) = {#}"
    using False nl by (auto simp: held_def list_ex_iff filter_mset_eq_mempty_iff)
  then have z: "size (filter_mset is_write_cb (held s)) = 0" by (simp only: size_empty)
  have k: "kept s = []" using False by (cases "host_held s") (simp_all add: kept_def)
  have "length (waiting s) + size (filter_mset is_write_cb (held s)) + length (kept s) = 1"
    using assms(2,4) by (simp add: inv_order_def)
  then have "length (waiting s) = 1" unfolding z k by simp
  then have "waiting s \<noteq> []" by auto
  then consider (st) "writes_in (stack s) \<noteq> []"
    | (fr) "writes_in (map snd (listeners_free s)) \<noteq> []"
    | (em) "writes_in (map snd (listeners_empty s)) \<noteq> []"
    by (auto simp: waiting_def)
  then show ?thesis
  proof cases
    case st
    then show ?thesis using writes_in_nonempty
      by (auto simp: busy_def write_coming_def list_ex_iff)
  next
    case fr
    then obtain l where l: "l \<in> set (listeners_free s)" "is_call_write (snd l)"
      using writes_in_nonempty by fastforce
    then have "covered_free s l" using assms(1) by (simp add: inv_live_def list_all_iff)
    then show ?thesis using l
      unfolding covered_free_def busy_def write_coming_def list_ex_iff by blast
  next
    case em
    then obtain l where l: "l \<in> set (listeners_empty s)" "is_call_write (snd l)"
      using writes_in_nonempty by fastforce
    then have "is_call_end (snd l)" using assms(1) by (simp add: inv_live_def list_all_iff)
    then show ?thesis using l(2) by (cases "snd l") auto
  qed
qed

lemma live_Host_write:
  assumes "inv_live cfg s" "inv_order s" "inv_listeners s" "stack s = Host_write it # fs"
  shows "inv_live cfg (exec cfg (Host_write it) (s\<lparr>stack := fs\<rparr>))"
proof -
  have pf: "variant cfg = Sink \<longrightarrow> paired fs" "variant cfg = Transform \<longrightarrow> listeners_empty s = []"
    using assms(1,4) by (simp_all add: inv_live_def)
  have nd: "\<not> list_ex is_done fs" "list_ex is_write_cb fs \<longrightarrow> 0 < pending s"
    using assms(1,4) by (auto simp: inv_live_def list_ex_iff)
  have bp: "busy (s\<lparr>stack := fs\<rparr>) = busy s"
    using assms(4) by (rule busy_pop) simp_all
  have cf: "\<And>l. l \<in> set (listeners_free s) \<Longrightarrow> busy s \<or> Fire Free (fst l) \<in> set fs"
    using assms(1,4) by (auto simp: inv_live_def covered_free_def list_all_iff)
  have ce: "\<And>l. l \<in> set (listeners_empty s) \<Longrightarrow>
      host_buffer s \<noteq> [] \<or> Fire Empty (fst l) \<in> set fs \<or> Check_empty \<in> set fs"
    using assms(1,4) by (auto simp: inv_live_def covered_empty_def list_all_iff)
  have io: "ids_ok s" "list_all (\<lambda>l. is_call_end (snd l)) (listeners_empty s)"
    using assms(1) by (simp_all add: inv_live_def)
  show ?thesis
  proof (cases "host_writing s")
    case True
    let ?s' = "(record_ev (EvWrite it) (s\<lparr>stack := fs\<rparr>))\<lparr>host_buffer := host_buffer s @ [it]\<rparr>"
    have e: "exec cfg (Host_write it) (s\<lparr>stack := fs\<rparr>) = ?s'"
      using True by (simp add: host_write_def Let_def)
    have b: "busy ?s'" using outstanding_busy [OF assms(1,2,3) True] bp
      by (simp add: busy_def write_coming_def)
    show ?thesis unfolding e
      using io pf nd b cf
      by (auto simp: inv_live_def ids_ok_def covered_free_def covered_empty_def list_all_iff)
  next
    case False
    note idle = this
    show ?thesis
    proof (cases "host_paused s")
      case True
      let ?s' = "(record_ev (EvWrite it) (s\<lparr>stack := fs\<rparr>))
                   \<lparr>host_writing := True, host_held := Some it\<rparr>"
      have e: "exec cfg (Host_write it) (s\<lparr>stack := fs\<rparr>) = ?s'"
        using idle True by (simp add: host_write_def host_call_def Let_def)
      have b: "busy ?s'" by (simp add: busy_def)
      show ?thesis unfolding e
        using io pf nd b ce
        by (auto simp: inv_live_def ids_ok_def covered_free_def covered_empty_def list_all_iff
            list_ex_iff)
    next
      case False
      let ?s' = "push [Call_write it]
                   ((record_ev (EvWrite it) (s\<lparr>stack := fs\<rparr>))\<lparr>host_writing := True\<rparr>)"
      have e: "exec cfg (Host_write it) (s\<lparr>stack := fs\<rparr>) = ?s'"
        using idle False by (simp add: host_write_def host_call_def Let_def)
      have b: "busy ?s'" by (simp add: busy_def write_coming_def)
      show ?thesis unfolding e
        using io pf nd b ce
        by (auto simp: inv_live_def ids_ok_def covered_free_def covered_empty_def list_all_iff
            list_ex_iff)
    qed
  qed
qed

lemma pending_nonneg: "inv_pending cfg s \<Longrightarrow> 0 \<le> pending s"
  by (simp add: inv_pending_def)

lemma live_exec:
  assumes "inv_live cfg s" "asynchronous cfg" "inv_pending cfg s" "inv_order s" "inv_listeners s"
    and "stack s = f # fs"
  shows "inv_live cfg (exec cfg f (s\<lparr>stack := fs\<rparr>))"
proof (cases f)
  case (Call_write it)
  then show ?thesis
    using live_Call_write [OF assms(1,2) pending_nonneg [OF assms(3)]] assms(6) by simp
next
  case (Call_end c e cb)
  then show ?thesis
    using live_Call_end [OF assms(1) pending_nonneg [OF assms(3)]] assms(6) by simp
next
  case (Work_done it err data)
  then show ?thesis using live_Work_done [OF assms(1)] assms(6) by simp
next
  case Write_cb
  then show ?thesis using live_Write_cb [OF assms(1)] assms(6) by simp
next
  case Check_empty
  then show ?thesis using live_Check_empty [OF assms(1)] assms(6) by simp
next
  case (Fire ev i)
  then show ?thesis using live_Fire [OF assms(1,5)] assms(6) by simp
next
  case (Fail_if err)
  then show ?thesis using live_Fail_if [OF assms(1)] assms(6) by simp
next
  case (Flush_done err)
  then show ?thesis using live_Flush_done [OF assms(1)] assms(6) by simp
next
  case (Host_write it)
  then show ?thesis using live_Host_write [OF assms(1,4,5)] assms(6) by simp
next
  case (Once_free_end cb)
  then show ?thesis using live_Once_free_end [OF assms(1)] assms(6) by simp
qed

lemma live_quiet_push:
  assumes "inv_live cfg s" "stack s = []" "f \<noteq> Write_cb" "\<not> is_once_free_end f"
    "\<not> is_write_cb f"
  shows "inv_live cfg (push [f] s)"
proof -
  have b: "busy s \<Longrightarrow> busy (push [f] s)" by (rule busy_push)
  have cf: "\<And>l. l \<in> set (listeners_free s) \<Longrightarrow> busy s"
    using assms(1,2) by (auto simp: inv_live_def covered_free_def list_all_iff)
  have ce: "\<And>l. l \<in> set (listeners_empty s) \<Longrightarrow> host_buffer s \<noteq> []"
    using assms(1,2) by (auto simp: inv_live_def covered_empty_def list_all_iff)
  have io: "ids_ok s" "list_all (\<lambda>l. is_call_end (snd l)) (listeners_empty s)"
    "variant cfg = Transform \<longrightarrow> listeners_empty s = []"
    using assms(1) by (simp_all add: inv_live_def)
  have p: "paired [f]" using assms(3) by (cases f) auto
  show ?thesis
    using io p b cf ce assms(2,4,5)
    by (auto simp: inv_live_def ids_ok_def covered_free_def covered_empty_def list_all_iff)
qed

lemma live_host_read:
  assumes "inv_live cfg s" "stack s = []"
  shows "inv_live cfg (host_read s)"
proof (cases "host_held s")
  case None
  then show ?thesis using assms(1) by (simp add: host_read_def)
next
  case (Some it)
  let ?s' = "push [Call_write it] (s\<lparr>host_paused := False, host_held := None\<rparr>)"
  have e: "host_read s = ?s'" using Some by (simp add: host_read_def)
  have b: "busy ?s'" by (simp add: busy_def write_coming_def)
  have ce: "\<And>l. l \<in> set (listeners_empty s) \<Longrightarrow> host_buffer s \<noteq> []"
    using assms by (auto simp: inv_live_def covered_empty_def list_all_iff)
  have io: "ids_ok s" "list_all (\<lambda>l. is_call_end (snd l)) (listeners_empty s)"
    "variant cfg = Transform \<longrightarrow> listeners_empty s = []"
    using assms(1) by (simp_all add: inv_live_def)
  show ?thesis unfolding e
    using io b ce assms(2)
    by (auto simp: inv_live_def ids_ok_def covered_free_def covered_empty_def list_all_iff)
qed

lemma live_step:
  assumes "inv_live cfg s" "asynchronous cfg" "inv_pending cfg s" "inv_order s" "inv_listeners s"
    and "step cfg a s = Some s'"
  shows "inv_live cfg s'"
proof (cases a)
  case Tau
  then show ?thesis using assms live_exec by (auto split: list.splits)
next
  case (Write c e)
  then show ?thesis using assms(1,6) live_quiet_push [of cfg s "Host_write (c, e)"]
    by (auto split: if_splits)
next
  case (End c e cb)
  then have "stack (record_ev EvEndCall s) = []" "s' = push [Call_end c e cb] (record_ev EvEndCall s)"
    using assms(6) by (auto split: if_splits)
  then show ?thesis
    using assms(1) live_quiet_push [of cfg "record_ev EvEndCall s" "Call_end c e cb"] by simp
next
  case (Complete k err data)
  let ?s = "s\<lparr>inflight := take k (inflight s) @ drop (Suc k) (inflight s)\<rparr>"
  have "stack ?s = []" "s' = push [Work_done (inflight s ! k) err data] ?s"
    using assms(6) Complete by (auto split: if_splits)
  then show ?thesis
    using assms(1) live_quiet_push [of cfg ?s "Work_done (inflight s ! k) err data"] by simp
next
  case (FlushComplete err)
  let ?s = "s\<lparr>flushing := flushing s - 1\<rparr>"
  have "stack ?s = []" "s' = push [Flush_done err] ?s"
    using assms(6) FlushComplete by (auto split: if_splits)
  then show ?thesis using assms(1) live_quiet_push [of cfg ?s "Flush_done err"] by simp
next
  case Pause
  then show ?thesis using assms(1,6) by (auto split: if_splits)
next
  case Read
  then show ?thesis using assms(1,6) live_host_read by (auto split: if_splits)
next
  case Finish
  then show ?thesis using assms(1,6) by (auto simp: host_finish_def split: if_splits)
qed

lemma inv_live_init: "inv_live cfg init"
  by (simp add: inv_live_def ids_ok_def init_def)

lemma inv_live_run:
  assumes "asynchronous cfg" "run cfg as init = Some s"
  shows "inv_live cfg s"
proof -
  have "inv_live cfg init \<and> inv_pending cfg init \<and> inv_order init \<and> inv_listeners init"
    using inv_live_init inv_all_init by simp
  then have "inv_live cfg s \<and> inv_pending cfg s \<and> inv_order s \<and> inv_listeners s"
    using _ assms(2)
  proof (rule run_invariant)
    fix a s s'
    assume "inv_live cfg s \<and> inv_pending cfg s \<and> inv_order s \<and> inv_listeners s"
      "step cfg a s = Some s'"
    then show "inv_live cfg s' \<and> inv_pending cfg s' \<and> inv_order s' \<and> inv_listeners s'"
      using live_step [OF _ assms(1)] inv_pending_step inv_order_step inv_listeners_step
      by blast
  qed
  then show ?thesis by simp
qed

lemma quiet_not_busy:
  "stack s = [] \<Longrightarrow> pending s = 0 \<Longrightarrow> host_held s = None \<Longrightarrow> \<not> busy s"
  by (simp add: busy_def write_coming_def list_ex_iff)

lemma drained_listeners:
  assumes "inv_live cfg s" "inv_order s" "inv_listeners s" "stack s = []" "pending s = 0"
    and "host_held s = None"
  shows "listeners_free s = [] \<and> listeners_empty s = [] \<and> host_buffer s = []"
proof -
  note nb = quiet_not_busy [OF assms(4,5,6)]
  have "\<not> host_writing s" using outstanding_busy [OF assms(1,2,3)] nb by blast
  then have buf: "host_buffer s = []" using assms(2) by (simp add: inv_order_def)
  have "l \<notin> set (listeners_free s)" for l
  proof
    assume "l \<in> set (listeners_free s)"
    then have "covered_free s l" using assms(1) by (simp add: inv_live_def list_all_iff)
    then show False using nb assms(4) by (simp add: covered_free_def)
  qed
  moreover have "l \<notin> set (listeners_empty s)" for l
  proof
    assume "l \<in> set (listeners_empty s)"
    then have "covered_empty s l" using assms(1) by (simp add: inv_live_def list_all_iff)
    then show False using buf assms(4) by (simp add: covered_empty_def)
  qed
  ultimately show ?thesis using buf by (metis list.set_intros(1) neq_Nil_conv)
qed

lemma every_end_honoured:
  assumes "asynchronous cfg" "run cfg as init = Some s"
    and "stack s = []" "pending s = 0" "\<not> errorEmitted s" "host_held s = None"
  shows "honoured cfg (log s) = count_list (log s) EvEndCall"
proof -
  note i = inv_all_run [OF assms(2)]
  have "inv_live cfg s" using assms(1,2) by (rule inv_live_run)
  moreover have "inv_order s" "inv_listeners s" using i by simp_all
  ultimately have "listeners_free s = [] \<and> listeners_empty s = [] \<and> host_buffer s = []"
    using assms(3,4,6) by (rule drained_listeners)
  then have "held s = {#}" using assms(3) by (simp add: held_def)
  moreover have "inv_end_exact cfg s" using i by simp
  ultimately show ?thesis using assms(5) by (simp add: inv_end_exact_def)
qed


subsection \<open>The flush hook and completion\<close>


subsection \<open>Error notification\<close>

text \<open>
  What holds of both stages, whatever work fails and in whatever order: at most one error
  notification is ever delivered; the error state is set exactly when one has been
  delivered, and the notified error is one of the reported failures; once the turn is
  over, a reported failure has led to exactly one notification; once the error state is
  set, \<open>fail\<close> changes nothing. In the transform the notified error is the first failure
  reported.
\<close>

lemma one_error_notification:
  assumes "run cfg as init = Some s"
  shows "length (errors (log s)) \<le> 1
       \<and> (errorEmitted s \<longleftrightarrow> errors (log s) \<noteq> [])
       \<and> set (errors (log s)) \<subseteq> set (failures (log s))
       \<and> (stack s = [] \<and> failures (log s) \<noteq> [] \<longrightarrow> length (errors (log s)) = 1)
       \<and> (variant cfg = Transform \<longrightarrow> errors (log s) = take 1 (failures (log s)))
       \<and> (errorEmitted s \<longrightarrow> (\<forall>e. fail e s = s))"
proof -
  have "inv_error s" "inv_transform cfg s" using inv_all_run [OF assms] by simp_all
  then show ?thesis
    by (auto simp: inv_error_def inv_transform_def fail_def split: if_splits)
qed

lemma one_error_notification_example:
  "\<exists>s. run sink2 sched_two_failures init = Some s
       \<and> failures (log s) = [JStr ''e1'', JStr ''e2'']
       \<and> errors (log s) = [JStr ''e1'']
       \<and> stack s = [] \<and> errorEmitted s
       \<and> length (errors (log s)) = 1
       \<and> fail (JStr ''e2'') s = s"
proof -
  have "map_option (\<lambda>s. (failures (log s), errors (log s), stack s))
          (run sink2 sched_two_failures init)
        = Some ([JStr ''e1'', JStr ''e2''], [JStr ''e1''], [])"
    by code_simp
  then obtain s where r: "run sink2 sched_two_failures init = Some s"
    and f: "failures (log s) = [JStr ''e1'', JStr ''e2'']"
    and e: "errors (log s) = [JStr ''e1'']" and q: "stack s = []"
    by auto
  from one_error_notification [OF r] f e q have "errorEmitted s \<and> length (errors (log s)) = 1
      \<and> fail (JStr ''e2'') s = s"
    by auto
  with r f e q show ?thesis by auto
qed

section \<open>The claims\<close>

text \<open>
  C1. For a stage of either kind with a concurrency limit of at least 1, after any
  sequence of writes, ends, completions and internal calls, the counter \<open>pending\<close> is at
  least 0 and at most the limit. It counts exactly the pieces of work dispatched and not
  yet called back: it goes up at a dispatch (made only under the limit check) and down
  once when that work's callback fires.
\<close>

theorem C1_pending_within_limit:
  assumes "1 \<le> concurrency cfg" and "run cfg as init = Some s"
  shows "0 \<le> pending s \<and> pending s \<le> concurrency cfg
       \<and> pending s = int (length (dispatched (log s))) - int (length (completed (log s)))
       \<and> pending s = int (length (inflight s)) + int (size (filter_mset is_done (held s)))"
proof -
  have "inv_pending cfg s" using assms(2) by (rule inv_pending_run)
  then show ?thesis using assms(1) by (auto simp: inv_pending_def)
qed

theorem C1_pending_within_limit_witness:
  "1 \<le> concurrency sink2
   \<and> (\<exists>s. run sink2 sched_three_writes init = Some s \<and> pending s = 2
          \<and> 0 \<le> pending s \<and> pending s \<le> concurrency sink2
          \<and> pending s = int (length (dispatched (log s))) - int (length (completed (log s))))"
proof -
  have c: "1 \<le> concurrency sink2" by (simp add: sink2_def writable_def)
  have "map_option pending (run sink2 sched_three_writes init) = Some 2" by code_simp
  then obtain s where r: "run sink2 sched_three_writes init = Some s" and p: "pending s = 2"
    by auto
  from C1_pending_within_limit [OF c r] c r p show ?thesis by auto
qed

text \<open>
  C2, at the input where the code fails it: a sink of one slot whose flush hook fails at
  once, one chunk written, \<^verbatim>\<open>end()\<close> called, and the chunk's work failing. The work's
  failure is reported first, but its callback emits \<^verbatim>\<open>free\<close> before it calls \<open>fail\<close>: the
  waiting \<^verbatim>\<open>end\<close> runs the flush hook, whose failure is recorded and notified, and the
  work's failure, the first one, is suppressed.
\<close>

theorem C2_later_failure_notified_in_sink:
  "map_option log (run sink1_flush_fails sched_last_fails_sink init)
     = Some [EvWrite (JStr ''a'', JUndefined), EvDispatch (JStr ''a'', JUndefined), EvEndCall,
             EvDone (JStr ''a'', JUndefined) (JStr ''boom'') JUndefined,
             EvFlush, EvFlushDone (JStr ''flush failed''), EvError (JStr ''flush failed'')]
   \<and> map_option (failures \<circ> log) (run sink1_flush_fails sched_last_fails_sink init)
     = Some [JStr ''boom'', JStr ''flush failed'']
   \<and> map_option (errors \<circ> log) (run sink1_flush_fails sched_last_fails_sink init)
     = Some [JStr ''flush failed'']"
  by code_simp




text \<open>
  C4, at the input where the code fails it: a sink of one slot with the default flush
  hook, one chunk written, \<^verbatim>\<open>end()\<close> called, and the chunk's work failing. The work
  callback emits \<^verbatim>\<open>free\<close> before it calls \<open>fail\<close>, so the waiting \<^verbatim>\<open>end\<close> sees
  no error yet, runs the flush hook and calls the host's \<^verbatim>\<open>end\<close>; then the error
  is notified. The transform, which calls \<open>fail\<close> before it emits \<^verbatim>\<open>free\<close>, only
  notifies the error.
\<close>

theorem C4_finish_and_error_in_sink:
  "map_option log (run sink1 sched_last_fails_sink init)
     = Some [EvWrite (JStr ''a'', JUndefined), EvDispatch (JStr ''a'', JUndefined), EvEndCall,
             EvDone (JStr ''a'', JUndefined) (JStr ''boom'') JUndefined,
             EvFlush, EvFlushDone JUndefined, EvEnd, EvError (JStr ''boom'')]
   \<and> map_option log (run transform1 sched_last_fails_transform init)
     = Some [EvWrite (JStr ''a'', JUndefined), EvDispatch (JStr ''a'', JUndefined), EvEndCall,
             EvDone (JStr ''a'', JUndefined) (JStr ''boom'') JUndefined,
             EvError (JStr ''boom'')]"
  by code_simp

text \<open>
  C5, as the code has it. In the transform, every completion whose error is falsy and
  whose output is truthy pushes that output downstream at once, as the very next thing the
  stage does, and nothing else is ever pushed: the pushed sequence is the sequence of the
  truthy outputs of the error-free completions, in completion order, whether or not an
  error was recorded before. A completion with a truthy error pushes nothing, whatever
  output it brings.
\<close>

theorem C5_outputs_in_completion_order:
  assumes "variant cfg = Transform" and "run cfg as init = Some s"
  shows "pushes (log s) = outputs (log s) \<and> emits_at_once None (log s)
       \<and> (\<forall>it err data. truthy err \<longrightarrow>
             pushes (log (transform_work_done it err data s)) = pushes (log s))"
proof -
  have "inv_transform cfg s" using inv_all_run [OF assms(2)] by simp
  then show ?thesis using assms(1)
    by (auto simp: inv_transform_def transform_work_done_def fail_def Let_def)
qed

theorem C5_outputs_in_completion_order_witness:
  "variant transform3 = Transform
   \<and> (\<exists>s. run transform3 sched_outputs init = Some s
          \<and> outputs (log s) = [JStr ''x'']
          \<and> pushes (log s) = [JStr ''x''])"
proof -
  have v: "variant transform3 = Transform" by (simp add: transform3_def transform_def)
  have "map_option (\<lambda>s. outputs (log s)) (run transform3 sched_outputs init)
        = Some [JStr ''x'']"
    by code_simp
  then obtain s where r: "run transform3 sched_outputs init = Some s"
    and o: "outputs (log s) = [JStr ''x'']"
    by auto
  from C5_outputs_in_completion_order [OF v r] o have "pushes (log s) = [JStr ''x'']" by simp
  with v r o show ?thesis by auto
qed

theorem C5_claimed_emitted_counterexample:
  "map_option (pushes \<circ> log) (run transform3 sched_outputs init) = Some [JStr ''x'']
   \<and> map_option (claimed_emitted \<circ> log) (run transform3 sched_outputs init) = Some [JNum 0]"
  by code_simp

text \<open>
  C6, as the code has it. In a stage of either kind, after any run: recording an error
  cancels nothing (\<open>fail\<close> leaves the counter, the work in flight, the waiting calls and
  the host's buffer as they are), and a later completion is handled as before: the counter
  goes down by one. Once an error is recorded it stays recorded, no later step invokes the
  flush hook, and in the transform no later step calls the host's \<^verbatim>\<open>end\<close>. Admission
  does not look at the error state: \<^verbatim>\<open>_write\<close> and \<^verbatim>\<open>_transform\<close> dispatch or defer a
  chunk under the limit check exactly as they do without an error.
\<close>

theorem C6_after_an_error:
  assumes "run cfg as init = Some s"
  shows "(\<forall>e. pending (fail e s) = pending s \<and> inflight (fail e s) = inflight s
             \<and> stack (fail e s) = stack s \<and> listeners_free (fail e s) = listeners_free s
             \<and> listeners_empty (fail e s) = listeners_empty s
             \<and> host_buffer (fail e s) = host_buffer s)
       \<and> (\<forall>it err data. pending (exec cfg (Work_done it err data) s) = pending s - 1)
       \<and> (\<forall>a s'. errorEmitted s \<and> step cfg a s = Some s'
             \<longrightarrow> errorEmitted s' \<and> count_list (log s') EvFlush = count_list (log s) EvFlush
                 \<and> (variant cfg = Transform
                      \<longrightarrow> count_list (log s') EvEnd = count_list (log s) EvEnd))
       \<and> (\<forall>it b. exec cfg (Call_write it) (s\<lparr>errorEmitted := b\<rparr>)
                    = (exec cfg (Call_write it) s)\<lparr>errorEmitted := b\<rparr>)"
proof -
  have t: "inv_transform cfg s" using inv_all_run [OF assms] by simp
  have "pending (fail e s) = pending s \<and> inflight (fail e s) = inflight s
      \<and> stack (fail e s) = stack s \<and> listeners_free (fail e s) = listeners_free s
      \<and> listeners_empty (fail e s) = listeners_empty s
      \<and> host_buffer (fail e s) = host_buffer s" for e
    by (simp add: fail_def record_ev_def)
  moreover have "pending (exec cfg (Work_done it err data) s) = pending s - 1" for it err data
    by (cases "variant cfg")
      (simp_all add: writable_work_done_def transform_work_done_def fail_def Let_def)
  moreover have "errorEmitted s' \<and> count_list (log s') EvFlush = count_list (log s) EvFlush
      \<and> (variant cfg = Transform \<longrightarrow> count_list (log s') EvEnd = count_list (log s) EvEnd)"
    if "errorEmitted s" "step cfg a s = Some s'" for a s'
  proof -
    have "variant cfg = Transform \<Longrightarrow> \<not> list_ex sink_only (stack s)"
      using t by (auto simp: inv_transform_def)
    then show ?thesis
      using that error_stays no_flush_after_error no_host_end_after_error by blast
  qed
  moreover have "exec cfg (Call_write it) (s\<lparr>errorEmitted := b\<rparr>)
      = (exec cfg (Call_write it) s)\<lparr>errorEmitted := b\<rparr>" for it b
    by (cases "variant cfg")
      (auto simp: writable_write_def transform_transform_def call_work_def once_def
        push_def record_ev_def Let_def split: option.splits)
  ultimately show ?thesis by blast
qed

theorem C6_after_an_error_witness:
  "\<exists>s s'. run sink1 sched_failed_sink init = Some s
       \<and> step sink1 (Write (JStr ''b'') JUndefined) s = Some s'
       \<and> errorEmitted s \<and> errorEmitted s'
       \<and> count_list (log s') EvFlush = count_list (log s) EvFlush"
proof -
  have "map_option (\<lambda>s. (errorEmitted s,
            map_option (\<lambda>s'. ()) (step sink1 (Write (JStr ''b'') JUndefined) s)))
          (run sink1 sched_failed_sink init)
        = Some (True, Some ())"
    by code_simp
  then obtain s s' where r: "run sink1 sched_failed_sink init = Some s"
    and t: "step sink1 (Write (JStr ''b'') JUndefined) s = Some s'" and e: "errorEmitted s"
    by auto
  from C6_after_an_error [OF r] t e
  have "errorEmitted s' \<and> count_list (log s') EvFlush = count_list (log s) EvFlush"
    by blast
  with r t e show ?thesis by blast
qed

theorem C6_admission_after_error_counterexample:
  "map_option errorEmitted (run sink1 sched_failed_sink init) = Some True
   \<and> map_option log (run sink1 (sched_failed_sink @ turn (Write (JStr ''b'') JUndefined) 4) init)
     = Some [EvWrite (JStr ''a'', JUndefined), EvDispatch (JStr ''a'', JUndefined),
             EvDone (JStr ''a'', JUndefined) (JStr ''boom'') JUndefined,
             EvError (JStr ''boom''),
             EvWrite (JStr ''b'', JUndefined), EvDispatch (JStr ''b'', JUndefined)]
   \<and> map_option errorEmitted (run transform1 sched_failed_transform init) = Some True
   \<and> map_option log
        (run transform1 (sched_failed_transform @ turn (Write (JStr ''b'') JUndefined) 3) init)
     = Some [EvWrite (JStr ''a'', JUndefined), EvDispatch (JStr ''a'', JUndefined),
             EvDone (JStr ''a'', JUndefined) (JStr ''boom'') JUndefined,
             EvError (JStr ''boom''),
             EvWrite (JStr ''b'', JUndefined), EvDispatch (JStr ''b'', JUndefined)]"
  by code_simp

text \<open>
  C7, as the code has it. In the transform, after any run: \<^verbatim>\<open>end\<close> never looks at what
  the host still holds (it does the same whatever the host's buffer holds and whatever
  chunk the host keeps back); it registers itself for \<^verbatim>\<open>free\<close> and does nothing else
  while the in-flight count is not 0, and calls the host's \<^verbatim>\<open>end\<close> exactly when it finds
  the count 0, no trailing chunk and the error flag not set. A step that calls the host's
  \<^verbatim>\<open>end\<close> starts from a state where the count is 0 and nothing is in flight: every
  chunk dispatched so far has called back, and every output of those completions has been
  pushed. The host's \<^verbatim>\<open>end\<close> is called at most once per call of \<^verbatim>\<open>end\<close> by the
  producer; the host reports \<^verbatim>\<open>finish\<close> only after that call, when every chunk written
  has been dispatched. With work that calls back after it has returned and a limit of at
  least 1, the host's \<^verbatim>\<open>end\<close> has been called exactly once per call of \<^verbatim>\<open>end\<close> whenever
  the stage is at rest with nothing in flight, no chunk kept back by the host and the
  error flag not set.
\<close>

theorem C7_transform_end_waits_for_work:
  assumes "variant cfg = Transform" and "run cfg as init = Some s"
  shows "(\<forall>a s'. step cfg a s = Some s'
              \<and> count_list (log s') EvEnd \<noteq> count_list (log s) EvEnd
            \<longrightarrow> pending s = 0 \<and> inflight s = []
                \<and> length (dispatched (log s)) = length (completed (log s))
                \<and> pushes (log s) = outputs (log s)
                \<and> count_list (log s') EvEnd = count_list (log s) EvEnd + 1)
       \<and> (\<forall>chunk enc cb buf h.
             transform_end chunk enc cb (s\<lparr>host_buffer := buf, host_held := h\<rparr>)
               = (transform_end chunk enc cb s)\<lparr>host_buffer := buf, host_held := h\<rparr>)
       \<and> (\<forall>chunk enc cb. pending s \<noteq> 0
            \<longrightarrow> transform_end chunk enc cb s = once Free (Call_end chunk enc cb) s)
       \<and> (\<forall>chunk enc cb.
             count_list (log (transform_end chunk enc cb s)) EvEnd
               = count_list (log s) EvEnd
                 + (if pending s = 0 \<and> \<not> truthy (fst (end_args chunk enc cb))
                       \<and> \<not> errorEmitted s
                    then 1 else 0))
       \<and> count_list (log s) EvEnd \<le> count_list (log s) EvEndCall
       \<and> (\<forall>s'. step cfg Finish s = Some s'
            \<longrightarrow> 0 < count_list (log s) EvEnd \<and> dispatched (log s) = written (log s))
       \<and> (asynchronous cfg \<and> stack s = [] \<and> pending s = 0 \<and> \<not> errorEmitted s
              \<and> host_held s = None
            \<longrightarrow> count_list (log s) EvEnd = count_list (log s) EvEndCall)"
proof -
  note i = inv_all_run [OF assms(2)]
  have p: "inv_pending cfg s" and t: "inv_transform cfg s" and e: "inv_end cfg s"
    and f: "inv_finish s" and or: "inv_order s"
    using i by simp_all
  have q: "\<not> list_ex sink_only (stack s)" and o: "pushes (log s) = outputs (log s)"
    using t assms(1) by (auto simp: inv_transform_def)
  have 1: "pending s = 0 \<and> inflight s = []
      \<and> length (dispatched (log s)) = length (completed (log s))
      \<and> pushes (log s) = outputs (log s)
      \<and> count_list (log s') EvEnd = count_list (log s) EvEnd + 1"
    if "step cfg a s = Some s'" "count_list (log s') EvEnd \<noteq> count_list (log s) EvEnd"
    for a s'
    using host_end_only_when_drained [OF that(1) assms(1) q that(2)] drained [OF p] o by blast
  have 2: "transform_end chunk enc cb (s\<lparr>host_buffer := buf, host_held := h\<rparr>)
          = (transform_end chunk enc cb s)\<lparr>host_buffer := buf, host_held := h\<rparr>"
    for chunk enc cb buf h
    by (auto simp: transform_end_def stage_defs Let_def split: prod.splits)
  have 3: "pending s \<noteq> 0
      \<longrightarrow> transform_end chunk enc cb s = once Free (Call_end chunk enc cb) s" for chunk enc cb
    by (simp add: transform_end_def)
  have 4: "count_list (log (transform_end chunk enc cb s)) EvEnd
          = count_list (log s) EvEnd
            + (if pending s = 0 \<and> \<not> truthy (fst (end_args chunk enc cb)) \<and> \<not> errorEmitted s
               then 1 else 0)" for chunk enc cb
    by (auto simp: transform_end_def host_end_def once_def Let_def split: prod.splits)
  have 5: "count_list (log s) EvEnd \<le> count_list (log s) EvEndCall"
    using e assms(1) by (auto simp: inv_end_def honoured_def)
  have 6: "0 < count_list (log s) EvEnd \<and> dispatched (log s) = written (log s)"
    if "step cfg Finish s = Some s'" for s'
    using finish_all_dispatched [OF or that] that f
    by (auto simp: inv_finish_def host_can_finish_def split: if_splits)
  have 7: "asynchronous cfg \<and> stack s = [] \<and> pending s = 0 \<and> \<not> errorEmitted s
        \<and> host_held s = None
      \<longrightarrow> count_list (log s) EvEnd = count_list (log s) EvEndCall"
    using every_end_honoured [OF _ assms(2)] assms(1) by (auto simp: honoured_def)
  show ?thesis using 1 2 3 4 5 6 7 by blast
qed

theorem C7_transform_end_waits_for_work_witness:
  "variant transform1 = Transform \<and> asynchronous transform1
   \<and> (\<exists>s s'. run transform1 sched_transform_drained init = Some s
          \<and> step transform1 Tau s = Some s'
          \<and> count_list (log s) EvEnd = 0 \<and> count_list (log s') EvEnd = 1
          \<and> pending s = 0 \<and> inflight s = []
          \<and> pushes (log s) = [JStr ''out''] \<and> outputs (log s) = [JStr ''out''])
   \<and> (\<exists>s. run transform1 sched_end_chunk_transform init = Some s
          \<and> stack s = [] \<and> pending s = 0 \<and> \<not> errorEmitted s \<and> host_held s = None
          \<and> count_list (log s) EvEndCall = 1 \<and> count_list (log s) EvEnd = 1)"
proof -
  have v: "variant transform1 = Transform" by (simp add: transform1_def transform_def)
  have a: "asynchronous transform1"
    by (simp add: asynchronous_def transform1_def transform_def async_work_def)
  have "map_option (\<lambda>s. (count_list (log s) EvEnd, pushes (log s),
            map_option (\<lambda>s'. count_list (log s') EvEnd) (step transform1 Tau s)))
          (run transform1 sched_transform_drained init)
        = Some (0, [JStr ''out''], Some 1)"
    by code_simp
  then obtain s s' where r: "run transform1 sched_transform_drained init = Some s"
    and t: "step transform1 Tau s = Some s'"
    and c: "count_list (log s) EvEnd = 0" and c': "count_list (log s') EvEnd = 1"
    and o: "pushes (log s) = [JStr ''out'']"
    by auto
  from C7_transform_end_waits_for_work [OF v r] t c c'
  have "pending s = 0 \<and> inflight s = [] \<and> pushes (log s) = outputs (log s)"
    by (metis zero_neq_one)
  with r t c c' o have 1: "\<exists>s s'. run transform1 sched_transform_drained init = Some s
          \<and> step transform1 Tau s = Some s'
          \<and> count_list (log s) EvEnd = 0 \<and> count_list (log s') EvEnd = 1
          \<and> pending s = 0 \<and> inflight s = []
          \<and> pushes (log s) = [JStr ''out''] \<and> outputs (log s) = [JStr ''out'']"
    by (metis (full_types))
  have "map_option (\<lambda>s. (stack s, pending s, errorEmitted s, host_held s,
            count_list (log s) EvEndCall))
          (run transform1 sched_end_chunk_transform init)
        = Some ([], 0, False, None, 1)"
    by code_simp
  then obtain u where ru: "run transform1 sched_end_chunk_transform init = Some u"
    and q: "stack u = []" "pending u = 0" "\<not> errorEmitted u" "host_held u = None"
    and n: "count_list (log u) EvEndCall = 1"
    by auto
  from C7_transform_end_waits_for_work [OF v ru] a q n
  have "count_list (log u) EvEnd = 1" by simp
  with ru q n have 2: "\<exists>s. run transform1 sched_end_chunk_transform init = Some s
          \<and> stack s = [] \<and> pending s = 0 \<and> \<not> errorEmitted s \<and> host_held s = None
          \<and> count_list (log s) EvEndCall = 1 \<and> count_list (log s) EvEnd = 1"
    by blast
  from v a 1 2 show ?thesis by blast
qed

theorem C7_finish_with_work_in_flight_counterexample:
  "map_option log (run transform1_b sched_end_overtakes init)
     = Some [EvWrite (JStr ''a'', JUndefined), EvDispatch (JStr ''a'', JUndefined),
             EvWrite (JStr ''b'', JUndefined), EvWrite (JStr ''c'', JUndefined), EvEndCall,
             EvDone (JStr ''a'', JUndefined) JNull (JStr ''A''), EvPush (JStr ''A''),
             EvDispatch (JStr ''b'', JUndefined),
             EvDone (JStr ''b'', JUndefined) JNull (JStr ''B''), EvPush (JStr ''B''),
             EvEnd, EvDispatch (JStr ''c'', JUndefined), EvFinish,
             EvDone (JStr ''c'', JUndefined) JNull (JStr ''C''), EvPush (JStr ''C'')]
   \<and> map_option log (run transform1 sched_end_before_read init)
     = Some [EvWrite (JStr ''a'', JUndefined), EvEndCall, EvEnd,
             EvDispatch (JStr ''a'', JUndefined), EvFinish,
             EvDone (JStr ''a'', JUndefined) JNull (JStr ''A''), EvPush (JStr ''A'')]
   \<and> map_option log (run transform1_sync sched_end_with_chunk_transform init)
     = Some [EvEndCall, EvWrite (JStr ''z'', JUndefined), EvDispatch (JStr ''z'', JUndefined),
             EvDone (JStr ''z'', JUndefined) JNull JUndefined]
   \<and> map_option stack (run transform1_sync sched_end_with_chunk_transform init) = Some []
   \<and> map_option pending (run transform1_sync sched_end_with_chunk_transform init) = Some 0
   \<and> map_option inflight (run transform1_sync sched_end_with_chunk_transform init) = Some []
   \<and> map_option host_buffer (run transform1_sync sched_end_with_chunk_transform init)
     = Some []
   \<and> map_option host_held (run transform1_sync sched_end_with_chunk_transform init)
     = Some None
   \<and> map_option errorEmitted (run transform1_sync sched_end_with_chunk_transform init)
     = Some False
   \<and> map_option listeners_free (run transform1_sync sched_end_with_chunk_transform init)
     = Some [(0, Call_end JUndefined JUndefined JUndefined)]"
  by code_simp

text \<open>
  C8. In a stage of either kind the chunks are dispatched to the work function in the
  order in which they were written: the chunks dispatched so far, then the chunk waiting
  for a free slot (at most one), then the chunk the host keeps back (a transform's host
  only, at most one), then the chunks in the host's buffer, are the chunks written so far,
  in their order. So the dispatched chunks are always an initial part of the input. A
  chunk handed to \<^verbatim>\<open>_write\<close> (\<^verbatim>\<open>_transform\<close>) is dispatched at once when a slot is
  free, and registers itself for \<^verbatim>\<open>free\<close> when none is. A chunk held back by a full
  pool is dispatched as soon as a slot is free: whenever the stage is at rest with a free
  slot, no chunk waits for one, and unless the host keeps a chunk back every chunk written
  has been dispatched.
\<close>

theorem C8_admission_in_input_order:
  assumes "run cfg as init = Some s"
  shows "written (log s) = dispatched (log s) @ waiting s @ kept s @ host_buffer s
       \<and> length (waiting s) + length (kept s) \<le> 1
       \<and> take (length (dispatched (log s))) (written (log s)) = dispatched (log s)
       \<and> (variant cfg = Sink \<longrightarrow> kept s = [])
       \<and> (\<forall>it. pending s < concurrency cfg
            \<longrightarrow> dispatched (log (exec cfg (Call_write it) s)) = dispatched (log s) @ [it])
       \<and> (\<forall>it. concurrency cfg \<le> pending s
            \<longrightarrow> exec cfg (Call_write it) s = once Free (Call_write it) s)
       \<and> (stack s = [] \<and> pending s < concurrency cfg \<longrightarrow> waiting s = [])
       \<and> (stack s = [] \<and> pending s < concurrency cfg \<and> kept s = []
            \<longrightarrow> host_buffer s = [] \<and> dispatched (log s) = written (log s))"
proof -
  note i = inv_all_run [OF assms]
  have or: "inv_order s" and ad: "inv_admit cfg s" and li: "inv_listeners s"
    and wr: "inv_writable cfg s"
    using i by simp_all
  have 1: "written (log s) = dispatched (log s) @ waiting s @ kept s @ host_buffer s"
    and 2: "length (waiting s) + length (kept s) \<le> 1"
    and 3: "take (length (dispatched (log s))) (written (log s)) = dispatched (log s)"
    using or by (auto simp: inv_order_def split: if_splits)
  have 4: "variant cfg = Sink \<longrightarrow> kept s = []"
    using wr by (auto simp: inv_writable_def kept_def)
  have 5: "pending s < concurrency cfg
      \<longrightarrow> dispatched (log (exec cfg (Call_write it) s)) = dispatched (log s) @ [it]" for it
    by (cases "variant cfg")
      (auto simp: writable_write_def transform_transform_def call_work_def Let_def
        split: option.splits)
  have 6: "concurrency cfg \<le> pending s
      \<longrightarrow> exec cfg (Call_write it) s = once Free (Call_write it) s" for it
    by (cases "variant cfg") (auto simp: writable_write_def transform_transform_def)
  have 7: "stack s = [] \<and> pending s < concurrency cfg \<longrightarrow> waiting s = []"
    using free_slot_nothing_waits [OF ad] by blast
  have k: "kept s = [] \<Longrightarrow> host_held s = None"
    by (cases "host_held s") (simp_all add: kept_def)
  have 8: "stack s = [] \<and> pending s < concurrency cfg \<and> kept s = []
      \<longrightarrow> host_buffer s = [] \<and> dispatched (log s) = written (log s)"
    using free_slot_all_dispatched [OF ad or li] k by auto
  show ?thesis using 1 2 3 4 5 6 7 8 by blast
qed

theorem C8_admission_in_input_order_witness:
  "(\<exists>s. run sink1 sched_queue_sink init = Some s
       \<and> written (log s) = [(JStr ''a'', JUndefined), (JStr ''b'', JUndefined),
                             (JStr ''c'', JUndefined)]
       \<and> dispatched (log s) = [(JStr ''a'', JUndefined), (JStr ''b'', JUndefined)]
       \<and> waiting s = [(JStr ''c'', JUndefined)]
       \<and> host_buffer s = []
       \<and> take (length (dispatched (log s))) (written (log s)) = dispatched (log s))
   \<and> (\<exists>s. run transform1 sched_blocked_transform init = Some s
       \<and> stack s = [] \<and> pending s = concurrency transform1
       \<and> written (log s) = [(JStr ''a'', JUndefined), (JStr ''b'', JUndefined),
                             (JStr ''c'', JUndefined)]
       \<and> dispatched (log s) = [(JStr ''a'', JUndefined), (JStr ''b'', JUndefined)]
       \<and> waiting s = [(JStr ''c'', JUndefined)] \<and> kept s = [] \<and> host_buffer s = []
       \<and> exec transform1 (Call_write (JStr ''d'', JUndefined)) s
           = once Free (Call_write (JStr ''d'', JUndefined)) s)
   \<and> (\<exists>s. run transform1 sched_queue_transform init = Some s
       \<and> stack s = [] \<and> pending s < concurrency transform1 \<and> kept s = []
       \<and> waiting s = [] \<and> host_buffer s = []
       \<and> written (log s) = [(JStr ''a'', JUndefined), (JStr ''b'', JUndefined),
                             (JStr ''c'', JUndefined)]
       \<and> dispatched (log s) = [(JStr ''a'', JUndefined), (JStr ''b'', JUndefined),
                                (JStr ''c'', JUndefined)]
       \<and> dispatched (log (exec transform1 (Call_write (JStr ''d'', JUndefined)) s))
           = dispatched (log s) @ [(JStr ''d'', JUndefined)])"
proof -
  have "map_option (\<lambda>s. (written (log s), dispatched (log s), waiting s, host_buffer s))
          (run sink1 sched_queue_sink init)
        = Some ([(JStr ''a'', JUndefined), (JStr ''b'', JUndefined), (JStr ''c'', JUndefined)],
                [(JStr ''a'', JUndefined), (JStr ''b'', JUndefined)],
                [(JStr ''c'', JUndefined)], [])"
    by code_simp
  then obtain s where r: "run sink1 sched_queue_sink init = Some s"
    and w: "written (log s) = [(JStr ''a'', JUndefined), (JStr ''b'', JUndefined),
                               (JStr ''c'', JUndefined)]"
    and d: "dispatched (log s) = [(JStr ''a'', JUndefined), (JStr ''b'', JUndefined)]"
    and q: "waiting s = [(JStr ''c'', JUndefined)]" and b: "host_buffer s = []"
    by auto
  from C8_admission_in_input_order [OF r] r w d q b
  have 1: "\<exists>s. run sink1 sched_queue_sink init = Some s
       \<and> written (log s) = [(JStr ''a'', JUndefined), (JStr ''b'', JUndefined),
                             (JStr ''c'', JUndefined)]
       \<and> dispatched (log s) = [(JStr ''a'', JUndefined), (JStr ''b'', JUndefined)]
       \<and> waiting s = [(JStr ''c'', JUndefined)]
       \<and> host_buffer s = []
       \<and> take (length (dispatched (log s))) (written (log s)) = dispatched (log s)"
    by blast
  have c1: "concurrency transform1 = 1" by (simp add: transform1_def transform_def)
  have "map_option (\<lambda>s. (stack s, pending s, dispatched (log s), waiting s, kept s,
            host_buffer s))
          (run transform1 sched_blocked_transform init)
        = Some ([], 1, [(JStr ''a'', JUndefined), (JStr ''b'', JUndefined)],
                [(JStr ''c'', JUndefined)], [], [])"
    by code_simp
  then obtain t where rt: "run transform1 sched_blocked_transform init = Some t"
    and st: "stack t = []" and pt: "pending t = 1"
    and dt: "dispatched (log t) = [(JStr ''a'', JUndefined), (JStr ''b'', JUndefined)]"
    and qt: "waiting t = [(JStr ''c'', JUndefined)]"
    and kt: "kept t = []" and bt: "host_buffer t = []"
    by auto
  note ct = C8_admission_in_input_order [OF rt]
  have wt: "written (log t) = [(JStr ''a'', JUndefined), (JStr ''b'', JUndefined),
                               (JStr ''c'', JUndefined)]"
    using ct dt qt kt bt by simp
  have "exec transform1 (Call_write (JStr ''d'', JUndefined)) t
           = once Free (Call_write (JStr ''d'', JUndefined)) t"
    using ct pt c1 by simp
  then have 2: "\<exists>s. run transform1 sched_blocked_transform init = Some s
       \<and> stack s = [] \<and> pending s = concurrency transform1
       \<and> written (log s) = [(JStr ''a'', JUndefined), (JStr ''b'', JUndefined),
                             (JStr ''c'', JUndefined)]
       \<and> dispatched (log s) = [(JStr ''a'', JUndefined), (JStr ''b'', JUndefined)]
       \<and> waiting s = [(JStr ''c'', JUndefined)] \<and> kept s = [] \<and> host_buffer s = []
       \<and> exec transform1 (Call_write (JStr ''d'', JUndefined)) s
           = once Free (Call_write (JStr ''d'', JUndefined)) s"
    using rt st pt c1 wt dt qt kt bt by auto
  have "map_option (\<lambda>s. (stack s, pending s, written (log s), kept s))
          (run transform1 sched_queue_transform init)
        = Some ([], 0,
                [(JStr ''a'', JUndefined), (JStr ''b'', JUndefined), (JStr ''c'', JUndefined)],
                [])"
    by code_simp
  then obtain u where ru: "run transform1 sched_queue_transform init = Some u"
    and su: "stack u = []" and pu: "pending u = 0"
    and wu: "written (log u) = [(JStr ''a'', JUndefined), (JStr ''b'', JUndefined),
                                (JStr ''c'', JUndefined)]"
    and ku: "kept u = []"
    by auto
  note cu = C8_admission_in_input_order [OF ru]
  have fu: "pending u < concurrency transform1" using pu c1 by simp
  have "waiting u = [] \<and> host_buffer u = [] \<and> dispatched (log u) = written (log u)"
    using cu su fu ku by blast
  moreover have "dispatched (log (exec transform1 (Call_write (JStr ''d'', JUndefined)) u))
           = dispatched (log u) @ [(JStr ''d'', JUndefined)]"
    using cu fu by blast
  ultimately have 3: "\<exists>s. run transform1 sched_queue_transform init = Some s
       \<and> stack s = [] \<and> pending s < concurrency transform1 \<and> kept s = []
       \<and> waiting s = [] \<and> host_buffer s = []
       \<and> written (log s) = [(JStr ''a'', JUndefined), (JStr ''b'', JUndefined),
                             (JStr ''c'', JUndefined)]
       \<and> dispatched (log s) = [(JStr ''a'', JUndefined), (JStr ''b'', JUndefined),
                                (JStr ''c'', JUndefined)]
       \<and> dispatched (log (exec transform1 (Call_write (JStr ''d'', JUndefined)) s))
           = dispatched (log s) @ [(JStr ''d'', JUndefined)]"
    using ru su fu ku wu by auto
  from 1 2 3 show ?thesis by blast
qed


text \<open>
  C10. In both constructors a concurrency option that is missing or falsy (the number 0),
  or an options argument that is itself missing, gives the limit 1.
\<close>

theorem C10_default_concurrency:
  assumes "get_concurrency opts = None \<or> get_concurrency opts = Some 0"
  shows "concurrency (writable wk (ArgFunction f) opts) = 1
       \<and> concurrency (writable wk opts ArgUndefined) = 1
       \<and> concurrency (transform wk opts) = 1"
  using assms by (cases opts) (auto simp: writable_def transform_def empty_options_def)

theorem C10_default_concurrency_witness:
  "get_concurrency (ArgObject \<lparr>opt_concurrency = Some 0, opt_stream = 0\<rparr>) = Some 0
   \<and> concurrency (writable async_work (ArgFunction default_flush)
         (ArgObject \<lparr>opt_concurrency = Some 0, opt_stream = 0\<rparr>)) = 1
   \<and> concurrency (writable async_work
         (ArgObject \<lparr>opt_concurrency = Some 0, opt_stream = 0\<rparr>) ArgUndefined) = 1
   \<and> concurrency (transform async_work
         (ArgObject \<lparr>opt_concurrency = Some 0, opt_stream = 0\<rparr>)) = 1"
proof -
  have h: "get_concurrency (ArgObject \<lparr>opt_concurrency = Some 0, opt_stream = 0\<rparr>) = None
         \<or> get_concurrency (ArgObject \<lparr>opt_concurrency = Some 0, opt_stream = 0\<rparr>) = Some 0"
    by simp
  from C10_default_concurrency [OF h, of async_work default_flush] show ?thesis by simp
qed

end
